theory Spec2Isabelle
  imports Main "HOL-Library.Char_ord"
begin

section \<open>Text: characters and the string methods the parser calls\<close>

text \<open>
  A Python \<open>str\<close> is modelled as a \<open>string\<close> whose characters are the code points
  U+0000 .. U+00FF, one \<open>char\<close> per code point. The character classes below are the ones
  Python uses on that range: \<open>str.isspace\<close> (which is also what \<open>str.strip()\<close>,
  \<open>str.split()\<close> and the regular expression class \<open>\s\<close> test), the decimal digits
  of \<open>\d\<close>, and the word characters of \<open>\w\<close> (alphanumerics and the underscore),
  which decide the word boundary \<open>\b\<close>.
\<close>

definition py_isspace :: "char \<Rightarrow> bool" where
  "py_isspace c \<longleftrightarrow>
     (CHR 0x09 \<le> c \<and> c \<le> CHR 0x0D) \<or> (CHR 0x1C \<le> c \<and> c \<le> CHR 0x20) \<or>
     c = CHR 0x85 \<or> c = CHR 0xA0"

definition is_digit :: "char \<Rightarrow> bool" where
  "is_digit c \<longleftrightarrow> CHR ''0'' \<le> c \<and> c \<le> CHR ''9''"

definition is_AZ :: "char \<Rightarrow> bool" where
  "is_AZ c \<longleftrightarrow> CHR ''A'' \<le> c \<and> c \<le> CHR ''Z''"

definition is_az :: "char \<Rightarrow> bool" where
  "is_az c \<longleftrightarrow> CHR ''a'' \<le> c \<and> c \<le> CHR ''z''"

definition is_word :: "char \<Rightarrow> bool" where
  "is_word c \<longleftrightarrow>
     is_digit c \<or> is_AZ c \<or> is_az c \<or> c = CHR ''_'' \<or>
     c \<in> set [CHR 0xAA, CHR 0xB2, CHR 0xB3, CHR 0xB5, CHR 0xB9, CHR 0xBA,
               CHR 0xBC, CHR 0xBD, CHR 0xBE] \<or>
     (CHR 0xC0 \<le> c \<and> c \<noteq> CHR 0xD7 \<and> c \<noteq> CHR 0xF7)"

text \<open>
  \<open>str.upper()\<close>: the ASCII letters and the Latin-1 letters U+00E0 .. U+00FE (without
  the division sign U+00F7) move down by 32; the sharp s U+00DF becomes the two letters
  \<open>SS\<close>. The upper-case forms of U+00B5 and U+00FF lie beyond U+00FF; no other
  character of the range is mapped to them, and no other character is mapped to U+00B5 or
  U+00FF, so leaving these two characters in place keeps every comparison of two
  upper-cased strings as Python decides it.
\<close>

definition upper_char :: "char \<Rightarrow> string" where
  "upper_char c =
     (if is_az c \<or> (CHR 0xE0 \<le> c \<and> c \<le> CHR 0xFE \<and> c \<noteq> CHR 0xF7)
      then [char_of (of_char c - (32::nat))]
      else if c = CHR 0xDF then ''SS''
      else [c])"

definition str_upper :: "string \<Rightarrow> string" where
  "str_upper s = concat (map upper_char s)"

text \<open>\<open>s.strip()\<close>: white space is removed at both ends.\<close>

definition str_strip :: "string \<Rightarrow> string" where
  "str_strip s = rev (dropWhile py_isspace (rev (dropWhile py_isspace s)))"

text \<open>\<open>s.split('\n')\<close>: the pieces between the line feeds, empty pieces kept.\<close>

fun split_lines :: "string \<Rightarrow> string \<Rightarrow> string list" where
  "split_lines cur [] = [cur]"
| "split_lines cur (c # s) =
     (if c = CHR 0x0A then cur # split_lines [] s else split_lines (cur @ [c]) s)"

text \<open>\<open>s.split()\<close>: the maximal runs of characters that are not white space.\<close>

fun split_words :: "string \<Rightarrow> string \<Rightarrow> string list" where
  "split_words cur [] = (if cur = [] then [] else [cur])"
| "split_words cur (c # s) =
     (if py_isspace c then (if cur = [] then split_words [] s else cur # split_words [] s)
      else split_words (cur @ [c]) s)"

definition str_split :: "string \<Rightarrow> string list" where
  "str_split s = split_words [] s"

text \<open>\<open>sub in s\<close>: \<open>sub\<close> occurs in \<open>s\<close> as a contiguous piece.\<close>

fun starts_with :: "string \<Rightarrow> string \<Rightarrow> bool" where
  "starts_with [] s = True"
| "starts_with (c # sub) [] = False"
| "starts_with (c # sub) (d # s) = (c = d \<and> starts_with sub s)"

fun str_in :: "string \<Rightarrow> string \<Rightarrow> bool" where
  "str_in sub [] = (sub = [])"
| "str_in sub (c # s) = (starts_with sub (c # s) \<or> str_in sub s)"

section \<open>The regular expressions of Python's \<open>re\<close> module\<close>

text \<open>
  The patterns of the program use literals and character classes, repetition of a single
  character class (greedy or lazy, with a lower and an optional upper bound),
  concatenation, alternation, capture groups, a positive lookahead, the anchors \<open>^\<close> and
  \<open>$\<close> and the word boundary \<open>\b\<close>. \<open>Rep P lo hi greedy\<close> is the class \<open>P\<close> repeated
  between \<open>lo\<close> and \<open>hi\<close> times (\<open>None\<close>: no upper bound).

  A position in the subject is a pair: the text before the cursor, reversed, and the text
  from the cursor on. The groups are a map from the group number to the captured text.
\<close>

datatype rx =
    Eps
  | Cls "char \<Rightarrow> bool"
  | Rep "char \<Rightarrow> bool" nat "nat option" bool
  | Seq rx rx
  | Alt rx rx
  | Grp nat rx
  | Look rx
  | Bol
  | Eol
  | WordB

type_synonym pos = "string \<times> string"
type_synonym caps = "nat \<Rightarrow> string option"

fun first_some :: "('a \<Rightarrow> 'b option) \<Rightarrow> 'a list \<Rightarrow> 'b option" where
  "first_some f [] = None"
| "first_some f (x # xs) = (case f x of Some y \<Rightarrow> Some y | None \<Rightarrow> first_some f xs)"

text \<open>
  The numbers of repetitions a repeated class tries, in the order the backtracking engine
  tries them: a greedy repetition from the longest run down to the lower bound, a lazy one
  from the lower bound up.
\<close>

definition rep_counts :: "(char \<Rightarrow> bool) \<Rightarrow> nat \<Rightarrow> nat option \<Rightarrow> bool \<Rightarrow> string \<Rightarrow> nat list" where
  "rep_counts P lo hi greedy a =
     (let n = length (takeWhile P a);
          n' = (case hi of None \<Rightarrow> n | Some h \<Rightarrow> min h n)
      in if greedy then rev [lo..<Suc n'] else [lo..<Suc n'])"

text \<open>
  The backtracking matcher, with the rest of the pattern as a continuation \<open>k\<close>: the
  result is the first way, in the engine's order of preference, to match the expression
  and then the continuation. \<open>$\<close> (without the MULTILINE flag) holds at the end of the
  subject and before a line feed that ends it; \<open>\b\<close> holds where exactly one of the two
  neighbouring characters is a word character.
\<close>

fun rx_match :: "rx \<Rightarrow> (pos \<Rightarrow> caps \<Rightarrow> (pos \<times> caps) option) \<Rightarrow> pos \<Rightarrow> caps \<Rightarrow> (pos \<times> caps) option" where
  "rx_match Eps k p cs = k p cs"
| "rx_match (Cls P) k (b, a) cs =
     (case a of [] \<Rightarrow> None | c # a' \<Rightarrow> if P c then k (c # b, a') cs else None)"
| "rx_match (Rep P lo hi greedy) k (b, a) cs =
     first_some (\<lambda>j. k (rev (take j a) @ b, drop j a) cs) (rep_counts P lo hi greedy a)"
| "rx_match (Seq r1 r2) k p cs = rx_match r1 (rx_match r2 k) p cs"
| "rx_match (Alt r1 r2) k p cs =
     (case rx_match r1 k p cs of Some x \<Rightarrow> Some x | None \<Rightarrow> rx_match r2 k p cs)"
| "rx_match (Grp n r) k (b, a) cs =
     rx_match r (\<lambda>(b', a') cs'. k (b', a') (cs'(n \<mapsto> take (length a - length a') a))) (b, a) cs"
| "rx_match (Look r) k p cs =
     (case rx_match r (\<lambda>p' cs'. Some (p', cs')) p cs of
        None \<Rightarrow> None
      | Some (p', cs') \<Rightarrow> k p cs')"
| "rx_match Bol k (b, a) cs = (if b = [] then k (b, a) cs else None)"
| "rx_match Eol k (b, a) cs = (if a = [] \<or> a = [CHR 0x0A] then k (b, a) cs else None)"
| "rx_match WordB k (b, a) cs =
     (if (case b of [] \<Rightarrow> False | c # _ \<Rightarrow> is_word c) \<noteq> (case a of [] \<Rightarrow> False | c # _ \<Rightarrow> is_word c)
      then k (b, a) cs else None)"

text \<open>
  A match object: the position where the match starts, the position where it ends, and
  the groups. \<open>group m n\<close> is \<open>m.group(n)\<close>, \<open>None\<close> for a group that took no part
  in the match; \<open>match_end m\<close> is the subject from \<open>m.end()\<close> on.
\<close>

type_synonym rmatch = "pos \<times> pos \<times> caps"

definition group :: "rmatch \<Rightarrow> nat \<Rightarrow> string option" where
  "group m n = (snd (snd m)) n"

definition match_end :: "rmatch \<Rightarrow> string" where
  "match_end m = snd (fst (snd m))"

text \<open>
  The end of a match attempt. When the previous match of a scan was empty, the engine
  refuses an empty match at the position where the scan resumes (\<open>adv\<close>), and
  backtracks.
\<close>

definition accept :: "bool \<Rightarrow> string \<Rightarrow> pos \<Rightarrow> caps \<Rightarrow> (pos \<times> caps) option" where
  "accept adv a p cs = (if adv \<and> length (snd p) = length a then None else Some (p, cs))"

text \<open>\<open>re.match\<close>: the pattern must match at the start of the subject.\<close>

definition re_match :: "rx \<Rightarrow> string \<Rightarrow> rmatch option" where
  "re_match r s =
     (case rx_match r (accept False s) ([], s) (\<lambda>_. None) of
        None \<Rightarrow> None
      | Some (p', cs) \<Rightarrow> Some (([], s), p', cs))"

text \<open>
  The scan for the leftmost match from a position on; only the first attempt of a scan
  is under the \<open>adv\<close> restriction.
\<close>

fun search_from :: "rx \<Rightarrow> bool \<Rightarrow> string \<Rightarrow> string \<Rightarrow> rmatch option" where
  "search_from r adv b [] =
     (case rx_match r (accept adv []) (b, []) (\<lambda>_. None) of
        None \<Rightarrow> None
      | Some (p', cs) \<Rightarrow> Some ((b, []), p', cs))"
| "search_from r adv b (c # a) =
     (case rx_match r (accept adv (c # a)) (b, c # a) (\<lambda>_. None) of
        None \<Rightarrow> search_from r False (c # b) a
      | Some (p', cs) \<Rightarrow> Some ((b, c # a), p', cs))"

definition re_search :: "rx \<Rightarrow> string \<Rightarrow> rmatch option" where
  "re_search r s = search_from r False [] s"

subsection \<open>What a match is: the relation behind the matcher\<close>

text \<open>
  \<open>rx_den r p cs p' cs'\<close>: the expression \<open>r\<close> can match from position \<open>p\<close> with
  groups \<open>cs\<close> to position \<open>p'\<close> with groups \<open>cs'\<close>, in some order of preference.
  Every answer of the matcher is such a match followed by an answer of the continuation.
\<close>

fun rx_den :: "rx \<Rightarrow> pos \<Rightarrow> caps \<Rightarrow> pos \<Rightarrow> caps \<Rightarrow> bool" where
  "rx_den Eps p cs p' cs' \<longleftrightarrow> p' = p \<and> cs' = cs"
| "rx_den (Cls P) (b, a) cs p' cs' \<longleftrightarrow>
     (\<exists>c a'. a = c # a' \<and> P c \<and> p' = (c # b, a') \<and> cs' = cs)"
| "rx_den (Rep P lo hi greedy) (b, a) cs p' cs' \<longleftrightarrow>
     (\<exists>j. lo \<le> j \<and> j \<le> length (takeWhile P a) \<and> (\<forall>h. hi = Some h \<longrightarrow> j \<le> h) \<and>
          p' = (rev (take j a) @ b, drop j a) \<and> cs' = cs)"
| "rx_den (Seq r1 r2) p cs p' cs' \<longleftrightarrow>
     (\<exists>p1 cs1. rx_den r1 p cs p1 cs1 \<and> rx_den r2 p1 cs1 p' cs')"
| "rx_den (Alt r1 r2) p cs p' cs' \<longleftrightarrow> rx_den r1 p cs p' cs' \<or> rx_den r2 p cs p' cs'"
| "rx_den (Grp n r) (b, a) cs p' cs' \<longleftrightarrow>
     (\<exists>cs1. rx_den r (b, a) cs p' cs1 \<and> cs' = cs1(n \<mapsto> take (length a - length (snd p')) a))"
| "rx_den (Look r) p cs p' cs' \<longleftrightarrow> p' = p \<and> (\<exists>p1. rx_den r p cs p1 cs')"
| "rx_den Bol (b, a) cs p' cs' \<longleftrightarrow> b = [] \<and> p' = (b, a) \<and> cs' = cs"
| "rx_den Eol (b, a) cs p' cs' \<longleftrightarrow> (a = [] \<or> a = [CHR 0x0A]) \<and> p' = (b, a) \<and> cs' = cs"
| "rx_den WordB (b, a) cs p' cs' \<longleftrightarrow>
     (case b of [] \<Rightarrow> False | c # _ \<Rightarrow> is_word c) \<noteq> (case a of [] \<Rightarrow> False | c # _ \<Rightarrow> is_word c) \<and>
     p' = (b, a) \<and> cs' = cs"

lemma first_some_SomeD: "first_some f xs = Some y \<Longrightarrow> \<exists>x \<in> set xs. f x = Some y"
  by (induction xs) (auto split: option.splits)

lemma rep_counts_set:
  "j \<in> set (rep_counts P lo hi greedy a) \<Longrightarrow>
     lo \<le> j \<and> j \<le> length (takeWhile P a) \<and> (\<forall>h. hi = Some h \<longrightarrow> j \<le> h)"
  by (auto simp: rep_counts_def Let_def split: option.splits if_splits)

lemma rx_match_sound:
  "rx_match r k p cs = Some x \<Longrightarrow> \<exists>p' cs'. rx_den r p cs p' cs' \<and> k p' cs' = Some x"
proof (induction r arbitrary: k p cs x)
  case Eps
  then show ?case by auto
next
  case (Cls P)
  then show ?case by (cases p) (auto split: list.splits if_splits)
next
  case (Rep P lo hi greedy)
  obtain b a where p: "p = (b, a)" by (cases p)
  from Rep p obtain j where j: "j \<in> set (rep_counts P lo hi greedy a)"
    and kj: "k (rev (take j a) @ b, drop j a) cs = Some x"
    by (auto dest: first_some_SomeD)
  from rep_counts_set [OF j] kj p show ?case by auto
next
  case (Seq r1 r2)
  from Seq.prems have "rx_match r1 (rx_match r2 k) p cs = Some x" by simp
  from Seq.IH(1) [OF this] obtain p1 cs1
    where d1: "rx_den r1 p cs p1 cs1" and m2: "rx_match r2 k p1 cs1 = Some x" by blast
  from Seq.IH(2) [OF m2] obtain p' cs'
    where d2: "rx_den r2 p1 cs1 p' cs'" and k: "k p' cs' = Some x" by blast
  from d1 d2 have "rx_den (Seq r1 r2) p cs p' cs'"
    unfolding rx_den.simps by blast
  with k show ?case by blast
next
  case (Alt r1 r2)
  show ?case
  proof (cases "rx_match r1 k p cs")
    case None
    with Alt.prems have "rx_match r2 k p cs = Some x" by simp
    from Alt.IH(2) [OF this] show ?thesis unfolding rx_den.simps by blast
  next
    case (Some y)
    with Alt.prems have "rx_match r1 k p cs = Some x" by simp
    from Alt.IH(1) [OF this] show ?thesis unfolding rx_den.simps by blast
  qed
next
  case (Grp n r)
  obtain b a where p: "p = (b, a)" by (cases p)
  let ?k = "\<lambda>(b', a') cs'. k (b', a') (cs'(n \<mapsto> take (length a - length a') a))"
  from Grp.prems p have "rx_match r ?k (b, a) cs = Some x" by simp
  from Grp.IH [OF this] obtain p' cs1
    where d: "rx_den r (b, a) cs p' cs1" and k: "?k p' cs1 = Some x" by blast
  from d k p show ?case by (cases p') auto
next
  case (Look r)
  from Look.prems obtain p1 cs1
    where m: "rx_match r (\<lambda>p' cs'. Some (p', cs')) p cs = Some (p1, cs1)"
      and k: "k p cs1 = Some x"
    by (auto split: option.splits)
  from Look.IH [OF m] have "rx_den r p cs p1 cs1" by auto
  then have "rx_den (Look r) p cs p cs1" unfolding rx_den.simps by blast
  with k show ?case by blast
next
  case Bol
  then show ?case by (cases p) (auto split: if_splits)
next
  case Eol
  then show ?case by (cases p) (auto split: if_splits)
next
  case WordB
  then show ?case by (cases p) (auto split: if_splits)
qed

text \<open>A match only moves the cursor forward: the text it passes goes to the left side.\<close>

lemma rx_den_moves:
  "rx_den r (b, a) cs (b', a') cs' \<Longrightarrow> \<exists>u. a = u @ a' \<and> b' = rev u @ b"
proof (induction r arbitrary: b a cs b' a' cs')
  case (Rep P lo hi greedy)
  then obtain j where "b' = rev (take j a) @ b" "a' = drop j a" by auto
  then have "a = take j a @ a' \<and> b' = rev (take j a) @ b" by simp
  then show ?case by blast
next
  case (Seq r1 r2)
  from Seq.prems obtain b1 a1 cs1
    where d1: "rx_den r1 (b, a) cs (b1, a1) cs1" and d2: "rx_den r2 (b1, a1) cs1 (b', a') cs'"
    by auto
  from Seq.IH(1) [OF d1] obtain u where u: "a = u @ a1" "b1 = rev u @ b" by blast
  from Seq.IH(2) [OF d2] obtain v where v: "a1 = v @ a'" "b' = rev v @ b1" by blast
  from u v have "a = (u @ v) @ a' \<and> b' = rev (u @ v) @ b" by simp
  then show ?case by blast
next
  case (Grp n r)
  then show ?case by auto
qed auto

lemma rx_den_length: "rx_den r (b, a) cs (b', a') cs' \<Longrightarrow> length a' \<le> length a"
  by (drule rx_den_moves) auto

subsection \<open>Scanning: \<open>re.findall\<close> and \<open>re.sub\<close>\<close>

lemma attempt_bounds:
  assumes "rx_match r (accept adv a) (b, a) cs0 = Some ((be, ae), cs)"
  shows "length ae \<le> length a \<and> (adv \<longrightarrow> length ae < length a)"
proof -
  from rx_match_sound [OF assms] obtain p' cs'
    where d: "rx_den r (b, a) cs0 p' cs'" and k: "accept adv a p' cs' = Some ((be, ae), cs)"
    by blast
  from k have p': "p' = (be, ae)" and adv: "\<not> (adv \<and> length ae = length a)"
    by (auto simp: accept_def split: if_splits)
  from d p' have "length ae \<le> length a" by (auto dest: rx_den_length)
  with adv show ?thesis by auto
qed

lemma search_from_bounds:
  "search_from r adv b a = Some ((bs, as), (be, ae), cs) \<Longrightarrow>
     length ae \<le> length as \<and> length as \<le> length a \<and> (adv \<longrightarrow> length ae < length a)"
proof (induction a arbitrary: adv b)
  case Nil
  then show ?case
    by (auto split: option.splits dest: attempt_bounds)
next
  case (Cons c a)
  show ?case
  proof (cases "rx_match r (accept adv (c # a)) (b, c # a) (\<lambda>_. None)")
    case None
    with Cons.prems have "search_from r False (c # b) a = Some ((bs, as), (be, ae), cs)"
      by simp
    from Cons.IH [OF this] show ?thesis by auto
  next
    case (Some y)
    with Cons.prems have "rx_match r (accept adv (c # a)) (b, c # a) (\<lambda>_. None) = Some ((be, ae), cs)"
      and "as = c # a"
      by (auto split: prod.splits)
    with attempt_bounds [of r adv "c # a" b "\<lambda>_. None" be ae cs] show ?thesis by auto
  qed
qed

text \<open>
  The matches of a scan, from left to right. After a match the scan resumes where the
  match ended; after an empty match the next attempt at that position must not be empty.
\<close>

function finditer :: "rx \<Rightarrow> bool \<Rightarrow> string \<Rightarrow> string \<Rightarrow> rmatch list" where
  "finditer r adv b a =
     (case search_from r adv b a of
        None \<Rightarrow> []
      | Some ((bs, as), (be, ae), cs) \<Rightarrow>
          ((bs, as), (be, ae), cs) # finditer r (length ae = length as) be ae)"
  by pat_completeness auto
termination
proof (relation "measure (\<lambda>(r, adv, b, a). 2 * length a + (if adv then 0 else 1))", goal_cases)
  case 1
  show ?case by simp
next
  case 2
  then show ?case by (auto dest: search_from_bounds)
qed

declare finditer.simps [simp del]

definition group_str :: "rmatch \<Rightarrow> nat \<Rightarrow> string" where
  "group_str m n = (case group m n of None \<Rightarrow> [] | Some g \<Rightarrow> g)"

text \<open>
  \<open>re.findall\<close> returns, for a pattern with one group, the text of that group for each
  match, and for a pattern with two groups the pair of their texts; a group that took no
  part in the match gives the empty string.
\<close>

definition re_findall1 :: "rx \<Rightarrow> string \<Rightarrow> string list" where
  "re_findall1 r s = map (\<lambda>m. group_str m 1) (finditer r False [] s)"

definition re_findall2 :: "rx \<Rightarrow> string \<Rightarrow> (string \<times> string) list" where
  "re_findall2 r s = map (\<lambda>m. (group_str m 1, group_str m 2)) (finditer r False [] s)"

text \<open>
  \<open>re.sub(pattern, repl, s)\<close> with a replacement text without group references:
  the text between the matches is kept, each match is replaced.
\<close>

fun sub_build :: "string \<Rightarrow> string \<Rightarrow> rmatch list \<Rightarrow> string" where
  "sub_build repl rest [] = rest"
| "sub_build repl rest (((bs, as), (be, ae), cs) # ms) =
     take (length rest - length as) rest @ repl @ sub_build repl ae ms"

definition re_sub :: "rx \<Rightarrow> string \<Rightarrow> string \<Rightarrow> string" where
  "re_sub r repl s = sub_build repl s (finditer r False [] s)"

subsection \<open>Writing patterns\<close>

abbreviation chr :: "char \<Rightarrow> rx" where
  "chr c \<equiv> Cls (\<lambda>x. x = c)"

abbreviation star :: "(char \<Rightarrow> bool) \<Rightarrow> rx" where
  "star P \<equiv> Rep P 0 None True"

abbreviation plus_rx :: "(char \<Rightarrow> bool) \<Rightarrow> rx" where
  "plus_rx P \<equiv> Rep P 1 None True"

abbreviation lazy_star :: "(char \<Rightarrow> bool) \<Rightarrow> rx" where
  "lazy_star P \<equiv> Rep P 0 None False"

abbreviation times :: "nat \<Rightarrow> (char \<Rightarrow> bool) \<Rightarrow> rx" where
  "times n P \<equiv> Rep P n (Some n) True"

abbreviation at_least :: "nat \<Rightarrow> (char \<Rightarrow> bool) \<Rightarrow> rx" where
  "at_least n P \<equiv> Rep P n None True"

abbreviation between :: "nat \<Rightarrow> nat \<Rightarrow> (char \<Rightarrow> bool) \<Rightarrow> rx" where
  "between lo hi P \<equiv> Rep P lo (Some hi) True"

fun seqs :: "rx list \<Rightarrow> rx" where
  "seqs [] = Eps"
| "seqs [r] = r"
| "seqs (r # rs) = Seq r (seqs rs)"

fun alts :: "rx \<Rightarrow> rx list \<Rightarrow> rx" where
  "alts r [] = r"
| "alts r (r' # rs) = Alt r (alts r' rs)"

text \<open>A literal text, and a literal text under the IGNORECASE flag.\<close>

definition lit :: "string \<Rightarrow> rx" where
  "lit s = seqs (map chr s)"

definition lit_ignorecase :: "string \<Rightarrow> rx" where
  "lit_ignorecase s = seqs (map (\<lambda>c. Cls (\<lambda>x. upper_char x = upper_char c)) s)"

text \<open>The dot: any character but the line feed.\<close>

definition dot :: "char \<Rightarrow> bool" where
  "dot c \<longleftrightarrow> c \<noteq> CHR 0x0A"

section \<open>The program\<close>

subsection \<open>Its patterns\<close>

text \<open>\<^verbatim>\<open>Date:\s*(\d{2}/\d{2}/\d{4}.*?)\s+Time:\s*([0-9:apm\-\s()]+)\<close>\<close>

definition time_class :: "char \<Rightarrow> bool" where
  "time_class c \<longleftrightarrow> is_digit c \<or> c \<in> set '':apm-()'' \<or> py_isspace c"

definition date_time_rx :: rx where
  "date_time_rx =
     seqs [lit ''Date:'', star py_isspace,
           Grp 1 (seqs [times 2 is_digit, chr CHR ''/'', times 2 is_digit, chr CHR ''/'',
                        times 4 is_digit, lazy_star dot]),
           plus_rx py_isspace, lit ''Time:'', star py_isspace,
           Grp 2 (plus_rx time_class)]"

text \<open>\<^verbatim>\<open>^([A-Z]{2,4}\s*\d{3})\s+(.+)\<close>\<close>

definition course_rx :: rx where
  "course_rx =
     seqs [Bol, Grp 1 (seqs [between 2 4 is_AZ, star py_isspace, times 3 is_digit]),
           plus_rx py_isspace, Grp 2 (plus_rx dot)]"

text \<open>\<^verbatim>\<open>^(.*?)(?:\s+[A-Z]{2,4}-\d+|\s+\d{3}\s*\()\<close>\<close>

definition title_rx :: rx where
  "title_rx =
     seqs [Bol, Grp 1 (lazy_star dot),
           Alt (seqs [plus_rx py_isspace, between 2 4 is_AZ, chr CHR ''-'', plus_rx is_digit])
               (seqs [plus_rx py_isspace, times 3 is_digit, star py_isspace, chr CHR ''(''])]"

text \<open>\<^verbatim>\<open>^[A-Z]{2,4}\s*\d{3}\s+\<close>\<close>

definition next_course_rx :: rx where
  "next_course_rx =
     seqs [Bol, between 2 4 is_AZ, star py_isspace, times 3 is_digit, plus_rx py_isspace]"

text \<open>\<^verbatim>\<open>\s+\<close>\<close>

definition whitespace_rx :: rx where
  "whitespace_rx = plus_rx py_isspace"

text \<open>
  \<^verbatim>\<open>(\d{3})\s*\([^)]+\)[^A-Z]*([A-Z][A-Za-z0-9+\s]*?)(?=\s+\d{3}\s*\(|\s+[A-Z]{2,4}-\d+|$)\<close>
\<close>

definition invig_text_class :: "char \<Rightarrow> bool" where
  "invig_text_class c \<longleftrightarrow> is_AZ c \<or> is_az c \<or> is_digit c \<or> c = CHR ''+'' \<or> py_isspace c"

definition room_pattern :: rx where
  "room_pattern =
     seqs [Grp 1 (times 3 is_digit), star py_isspace,
           chr CHR ''('', plus_rx (\<lambda>c. c \<noteq> CHR '')''), chr CHR '')'',
           star (\<lambda>c. \<not> is_AZ c),
           Grp 2 (seqs [Cls is_AZ, lazy_star invig_text_class]),
           Look (alts (seqs [plus_rx py_isspace, times 3 is_digit, star py_isspace, chr CHR ''(''])
                      [seqs [plus_rx py_isspace, between 2 4 is_AZ, chr CHR ''-'', plus_rx is_digit],
                       Eol])]"

text \<open>\<^verbatim>\<open>\b(\d{3})\b\<close>\<close>

definition rooms_rx :: rx where
  "rooms_rx = seqs [WordB, Grp 1 (times 3 is_digit), WordB]"

text \<open>\<^verbatim>\<open>[A-Z]{2,4}-\d+\(\d+\)\<close>\<close>

definition program_capacity_rx :: rx where
  "program_capacity_rx =
     seqs [between 2 4 is_AZ, chr CHR ''-'', plus_rx is_digit,
           chr CHR ''('', plus_rx is_digit, chr CHR '')'']"

text \<open>\<^verbatim>\<open>\d{3}\s*\([^)]+\)[0-9\-+rest\s]*\<close>\<close>

definition room_info_class :: "char \<Rightarrow> bool" where
  "room_info_class c \<longleftrightarrow> is_digit c \<or> c \<in> set ''-+rest'' \<or> py_isspace c"

definition room_info_rx :: rx where
  "room_info_rx =
     seqs [times 3 is_digit, star py_isspace,
           chr CHR ''('', plus_rx (\<lambda>c. c \<noteq> CHR '')''), chr CHR '')'',
           star room_info_class]"

text \<open>\<^verbatim>\<open>\d{7,}\<close>\<close>

definition id_rx :: rx where
  "id_rx = at_least 7 is_digit"

text \<open>\<^verbatim>\<open>(\d{3})\s*\([^)]+\)\<close>\<close>

definition single_room_rx :: rx where
  "single_room_rx =
     seqs [Grp 1 (times 3 is_digit), star py_isspace,
           chr CHR ''('', plus_rx (\<lambda>c. c \<noteq> CHR '')''), chr CHR '')'']"

text \<open>\<^verbatim>\<open>[A-Z]{2,4}-\d+\<close>, \<^verbatim>\<open>\(\d+\)\<close>, \<^verbatim>\<open>\d{3}\<close> and \<^verbatim>\<open>rest\<close>\<close>

definition program_rx :: rx where
  "program_rx = seqs [between 2 4 is_AZ, chr CHR ''-'', plus_rx is_digit]"

definition capacity_rx :: rx where
  "capacity_rx = seqs [chr CHR ''('', plus_rx is_digit, chr CHR '')'']"

definition room_number_rx :: rx where
  "room_number_rx = times 3 is_digit"

definition rest_rx :: rx where
  "rest_rx = lit ''rest''"

text \<open>\<^verbatim>\<open>\b([A-Za-z]{2,4}\d{0,2})\b\<close>\<close>

definition invig_pattern :: rx where
  "invig_pattern =
     seqs [WordB, Grp 1 (seqs [between 2 4 (\<lambda>c. is_AZ c \<or> is_az c), between 0 2 is_digit]), WordB]"

text \<open>
  \<^verbatim>\<open>^(BBA|CSE|ENG|TEX|BTE|EEE|CEN|LLB|JRN|BFT|LLM|MJR|ENF)$\<close> with the IGNORECASE flag
\<close>

definition excluded_codes :: "string list" where
  "excluded_codes =
     [''BBA'', ''CSE'', ''ENG'', ''TEX'', ''BTE'', ''EEE'', ''CEN'', ''LLB'', ''JRN'', ''BFT'',
      ''LLM'', ''MJR'', ''ENF'']"

definition exclude_rx :: rx where
  "exclude_rx =
     seqs [Bol,
           Grp 1 (alts (lit_ignorecase ''BBA'')
                    (map lit_ignorecase
                       [''CSE'', ''ENG'', ''TEX'', ''BTE'', ''EEE'', ''CEN'', ''LLB'', ''JRN'',
                        ''BFT'', ''LLM'', ''MJR'', ''ENF''])),
           Eol]"

subsection \<open>Duty records\<close>

record duty =
  date :: string
  time :: string
  course :: string
  title :: string
  room :: string
  invigilators :: "string list"

subsection \<open>\<open>extract_invigilator_codes\<close>\<close>

text \<open>
  The loop over the tokens found: a token of at least two characters that the exclusion
  pattern does not match is appended in upper case.
\<close>

fun valid_codes_loop :: "string list \<Rightarrow> string list \<Rightarrow> string list" where
  "valid_codes_loop [] valid_codes = valid_codes"
| "valid_codes_loop (code # codes) valid_codes =
     (if length code \<ge> 2 then
        (if re_match exclude_rx code = None
         then valid_codes_loop codes (valid_codes @ [str_upper code])
         else valid_codes_loop codes valid_codes)
      else valid_codes_loop codes valid_codes)"

definition extract_invigilator_codes :: "string \<Rightarrow> string list" where
  "extract_invigilator_codes txt =
     (if txt = [] then []
      else
        let txt = str_strip txt;
            txt = re_sub id_rx [] txt;
            txt = re_sub program_rx [] txt;
            txt = re_sub capacity_rx [] txt;
            txt = re_sub room_number_rx [] txt;
            txt = re_sub rest_rx [] txt;
            codes = re_findall1 invig_pattern txt
        in valid_codes_loop codes [])"

subsection \<open>\<open>parse_room_assignments\<close>\<close>

text \<open>Method 1: a record for each explicit pair whose trailing text gives a code.\<close>

fun method1_loop ::
  "string \<Rightarrow> string \<Rightarrow> string \<Rightarrow> string \<Rightarrow> (string \<times> string) list \<Rightarrow> duty list \<Rightarrow> duty list" where
  "method1_loop course_code course_title date_v time_v [] duties = duties"
| "method1_loop course_code course_title date_v time_v ((room_no, invig_text) # room_matches) duties =
     (let invigs = extract_invigilator_codes invig_text
      in if invigs \<noteq> []
         then method1_loop course_code course_title date_v time_v room_matches
                (duties @ [\<lparr>date = date_v, time = time_v, course = course_code,
                            title = course_title, room = room_no, invigilators = invigs\<rparr>])
         else method1_loop course_code course_title date_v time_v room_matches duties)"

text \<open>Method 2: a record for each three-digit number, all with the same codes.\<close>

fun method2_loop ::
  "string \<Rightarrow> string \<Rightarrow> string \<Rightarrow> string \<Rightarrow> string list \<Rightarrow> string list \<Rightarrow> duty list \<Rightarrow> duty list" where
  "method2_loop course_code course_title date_v time_v invigs [] duties = duties"
| "method2_loop course_code course_title date_v time_v invigs (room_no # rooms) duties =
     method2_loop course_code course_title date_v time_v invigs rooms
       (duties @ [\<lparr>date = date_v, time = time_v, course = course_code,
                   title = course_title, room = room_no, invigilators = invigs\<rparr>])"

definition method2_text :: "string \<Rightarrow> string" where
  "method2_text entry_text =
     (let all_invig_text = entry_text;
          all_invig_text = re_sub program_capacity_rx [] all_invig_text;
          all_invig_text = re_sub room_info_rx '' '' all_invig_text;
          all_invig_text = re_sub id_rx [] all_invig_text
      in all_invig_text)"

text \<open>
  The three methods in turn, on one list of duties. In method 3 the room is group 1 of
  the match; the group takes part in every match of the pattern, so the case of a match
  without it does not arise.
\<close>

definition parse_room_assignments ::
  "string \<Rightarrow> string \<Rightarrow> string \<Rightarrow> string \<Rightarrow> string \<Rightarrow> duty list" where
  "parse_room_assignments course_code course_title entry_text date_v time_v =
     (let duties = [];
          entry_text = str_strip (re_sub whitespace_rx '' '' entry_text);
          room_matches = re_findall2 room_pattern entry_text;
          duties = method1_loop course_code course_title date_v time_v room_matches duties;
          duties =
            (if duties = [] then
               let rooms = re_findall1 rooms_rx entry_text;
                   invigs = extract_invigilator_codes (method2_text entry_text)
               in method2_loop course_code course_title date_v time_v invigs rooms duties
             else duties);
          duties =
            (if duties = [] then
               (case re_search single_room_rx entry_text of
                  None \<Rightarrow> duties
                | Some single_room_match \<Rightarrow>
                    (case group single_room_match 1 of
                       None \<Rightarrow> duties
                     | Some room_no \<Rightarrow>
                         let after_room = match_end single_room_match;
                             invigs = extract_invigilator_codes after_room
                         in duties @ [\<lparr>date = date_v, time = time_v, course = course_code,
                                        title = course_title, room = room_no,
                                        invigilators = invigs\<rparr>]))
             else duties)
      in duties)"

subsection \<open>\<open>parse_schedule\<close>\<close>

text \<open>
  The errors Python can raise in \<open>parse_schedule\<close>: \<open>IndexError\<close> when the first
  element of an empty list is taken, \<open>AttributeError\<close> when \<open>strip\<close> is called on the
  \<open>None\<close> that \<open>group\<close> returns for a group that took no part in the match.
\<close>

datatype py_error = IndexError | AttributeError

definition group_strip :: "rmatch \<Rightarrow> nat \<Rightarrow> py_error + string" where
  "group_strip m n = (case group m n of None \<Rightarrow> Inl AttributeError | Some g \<Rightarrow> Inr (str_strip g))"

text \<open>
  The inner loop: the lines after the course line are added to the entry until a line
  starts a course, contains \<open>Date:\<close> or is a separator; blank lines are passed over.
  The result is the cursor \<open>j\<close> where the loop stops, and the entry.
\<close>

function collect_entry :: "string list \<Rightarrow> nat \<Rightarrow> string \<Rightarrow> nat \<times> string" where
  "collect_entry lines j full_entry =
     (if j < length lines then
        let next_line = str_strip (lines ! j)
        in if next_line = [] then collect_entry lines (j + 1) full_entry
           else if re_match next_course_rx next_line \<noteq> None \<or> str_in ''Date:'' next_line
           then (j, full_entry)
           else if list_ex (\<lambda>sep. str_in sep next_line)
                     [''---'', ''Course Code'', ''Port City International'', ''Page |'']
           then (j, full_entry)
           else collect_entry lines (j + 1) (full_entry @ '' '' @ next_line)
      else (j, full_entry))"
  by pat_completeness auto
termination
  by (relation "measure (\<lambda>(lines, j, full_entry). length lines - j)") auto

declare collect_entry.simps [simp del]

text \<open>The title of a course, from the text after the course code.\<close>

definition course_title_of :: "string \<Rightarrow> py_error + string" where
  "course_title_of remaining_text =
     (case re_search title_rx remaining_text of
        Some title_match \<Rightarrow> group_strip title_match 1
      | None \<Rightarrow>
          if remaining_text \<noteq> [] then
            (case str_split remaining_text of
               [] \<Rightarrow> Inl IndexError
             | w # ws \<Rightarrow> Inr w)
          else Inr ''Unknown'')"

text \<open>The tests of the outer loop for lines that are passed over.\<close>

definition is_page_header :: "string \<Rightarrow> bool" where
  "is_page_header line \<longleftrightarrow>
     line = [] \<or> str_in ''Port City International University'' line \<or>
     str_in ''Dean, Faculty'' line \<or> str_in ''Updated on'' line"

definition is_table_header :: "string \<Rightarrow> bool" where
  "is_table_header line \<longleftrightarrow>
     list_ex (\<lambda>header. str_in header line)
       [''Course Code'', ''Course Title'', ''Program'', ''Room'', ''ID No'',
        ''Invigilator'', ''---'', ''Rest='', ''Page |'']"

text \<open>
  The branch of the outer loop for a course line, once the line has matched the course
  pattern and a date and a time are in force: the result is the cursor after the entry
  and the duties with those of the entry appended.
\<close>

definition course_entry ::
  "string list \<Rightarrow> nat \<Rightarrow> rmatch \<Rightarrow> string \<Rightarrow> string \<Rightarrow> duty list \<Rightarrow> py_error + (nat \<times> duty list)" where
  "course_entry lines i course_match current_date current_time duties =
     (case group_strip course_match 1 of
        Inl e \<Rightarrow> Inl e
      | Inr course_code \<Rightarrow>
          (case group_strip course_match 2 of
             Inl e \<Rightarrow> Inl e
           | Inr remaining_text \<Rightarrow>
               (case course_title_of remaining_text of
                  Inl e \<Rightarrow> Inl e
                | Inr course_title \<Rightarrow>
                    let (j, full_entry) = collect_entry lines (i + 1) remaining_text;
                        room_duties = parse_room_assignments course_code course_title
                                        full_entry current_date current_time
                    in Inr (j, duties @ room_duties))))"

text \<open>
  One pass through the body of the outer loop, at line \<open>i\<close>: the result is the next
  value of the cursor, the date and time in force, and the duties so far; or the error
  raised.
\<close>

definition loop_body ::
  "string list \<Rightarrow> nat \<Rightarrow> string option \<Rightarrow> string option \<Rightarrow> duty list \<Rightarrow>
     py_error + (nat \<times> string option \<times> string option \<times> duty list)" where
  "loop_body lines i current_date current_time duties =
     (let line = str_strip (lines ! i)
      in if is_page_header line
         then Inr (i + 1, current_date, current_time, duties)
         else
           (case re_search date_time_rx line of
              Some date_time_match \<Rightarrow>
                (case group_strip date_time_match 1 of
                   Inl e \<Rightarrow> Inl e
                 | Inr d \<Rightarrow>
                     (case group_strip date_time_match 2 of
                        Inl e \<Rightarrow> Inl e
                      | Inr t \<Rightarrow> Inr (i + 1, Some d, Some t, duties)))
            | None \<Rightarrow>
                if is_table_header line
                then Inr (i + 1, current_date, current_time, duties)
                else
                  (case (re_match course_rx line, current_date, current_time) of
                     (Some course_match, Some d, Some t) \<Rightarrow>
                       if d \<noteq> [] \<and> t \<noteq> [] then
                         (case course_entry lines i course_match d t duties of
                            Inl e \<Rightarrow> Inl e
                          | Inr (j, duties') \<Rightarrow> Inr (j, current_date, current_time, duties'))
                       else Inr (i + 1, current_date, current_time, duties)
                   | _ \<Rightarrow> Inr (i + 1, current_date, current_time, duties))))"

lemma collect_entry_cursor: "j \<le> fst (collect_entry lines j full_entry)"
proof (induction lines j full_entry rule: collect_entry.induct)
  case (1 lines j full_entry)
  show ?case
  proof (cases "j < length lines")
    case False
    then show ?thesis by (subst collect_entry.simps) simp
  next
    case True
    let ?n = "str_strip (lines ! j)"
    show ?thesis
    proof (cases "?n = []")
      case True
      with \<open>j < length lines\<close> "1.IH"(1) [OF \<open>j < length lines\<close> refl True]
      show ?thesis by (subst collect_entry.simps) (simp add: Let_def)
    next
      case False
      note ne = this
      show ?thesis
      proof (cases "re_match next_course_rx ?n \<noteq> None \<or> str_in ''Date:'' ?n")
        case True
        with \<open>j < length lines\<close> ne show ?thesis
          by (subst collect_entry.simps) (simp add: Let_def)
      next
        case False
        note nc = this
        show ?thesis
        proof (cases "list_ex (\<lambda>sep. str_in sep ?n)
                     [''---'', ''Course Code'', ''Port City International'', ''Page |'']")
          case True
          with \<open>j < length lines\<close> ne nc show ?thesis
            by (subst collect_entry.simps) (simp add: Let_def)
        next
          case False
          with \<open>j < length lines\<close> ne nc "1.IH"(2) [OF \<open>j < length lines\<close> refl ne nc False]
          show ?thesis by (subst collect_entry.simps) (simp add: Let_def)
        qed
      qed
    qed
  qed
qed

lemma course_entry_cursor:
  assumes "course_entry lines i course_match d t duties = Inr (j, duties')"
  shows "i < j"
proof -
  from assms obtain remaining_text full_entry
    where "collect_entry lines (i + 1) remaining_text = (j, full_entry)"
    by (auto simp: course_entry_def Let_def split: sum.splits prod.splits)
  with collect_entry_cursor [of "i + 1" lines remaining_text] show ?thesis by simp
qed

lemma loop_body_cursor:
  assumes "loop_body lines i current_date current_time duties = Inr (i', d', t', duties')"
  shows "i < i'"
proof -
  let ?line = "str_strip (lines ! i)"
  show ?thesis
  proof (cases "is_page_header ?line")
    case True
    with assms show ?thesis by (simp add: loop_body_def)
  next
    case False
    note nh = this
    show ?thesis
    proof (cases "re_search date_time_rx ?line")
      case (Some m)
      with assms nh show ?thesis
        by (simp add: loop_body_def split: sum.splits)
    next
      case None
      note nd = this
      show ?thesis
      proof (cases "is_table_header ?line")
        case True
        with assms nh nd show ?thesis by (simp add: loop_body_def)
      next
        case False
        note nt = this
        show ?thesis
        proof (cases "re_match course_rx ?line")
          case None
          with assms nh nd nt show ?thesis by (simp add: loop_body_def)
        next
          case (Some cm)
          note cm = this
          show ?thesis
          proof (cases current_date)
            case None
            with assms nh nd nt cm show ?thesis by (simp add: loop_body_def)
          next
            case (Some d)
            note d = this
            show ?thesis
            proof (cases current_time)
              case None
              with assms nh nd nt cm d show ?thesis by (simp add: loop_body_def)
            next
              case (Some t)
              show ?thesis
              proof (cases "d \<noteq> [] \<and> t \<noteq> []")
                case False
                with assms nh nd nt cm d Some show ?thesis by (auto simp add: loop_body_def)
              next
                case True
                with assms nh nd nt cm d Some
                obtain j ds where "course_entry lines i cm d t duties = Inr (j, ds)" "i' = j"
                  by (auto simp add: loop_body_def split: sum.splits)
                then show ?thesis by (auto dest: course_entry_cursor)
              qed
            qed
          qed
        qed
      qed
    qed
  qed
qed

text \<open>The outer loop, from cursor \<open>i\<close> on.\<close>

function parse_loop ::
  "string list \<Rightarrow> nat \<Rightarrow> string option \<Rightarrow> string option \<Rightarrow> duty list \<Rightarrow> py_error + duty list" where
  "parse_loop lines i current_date current_time duties =
     (if i < length lines then
        (case loop_body lines i current_date current_time duties of
           Inl e \<Rightarrow> Inl e
         | Inr (i', current_date', current_time', duties') \<Rightarrow>
             parse_loop lines i' current_date' current_time' duties')
      else Inr duties)"
  by pat_completeness auto
termination
proof (relation "measure (\<lambda>(lines, i, current_date, current_time, duties). length lines - i)", goal_cases)
  case 1
  show ?case by simp
next
  case 2
  then show ?case by (auto dest: loop_body_cursor)
qed

declare parse_loop.simps [simp del]

definition parse_schedule :: "string \<Rightarrow> py_error + duty list" where
  "parse_schedule txt = parse_loop (split_lines [] txt) 0 None None []"

subsection \<open>\<open>find_invigilator_duties\<close>\<close>

text \<open>
  The inner loop over the codes of one duty stops at the first code equal to the query:
  the duty is appended once.
\<close>

fun scan_invigilators :: "duty \<Rightarrow> string list \<Rightarrow> string \<Rightarrow> duty list \<Rightarrow> duty list" where
  "scan_invigilators d [] code matching_duties = matching_duties"
| "scan_invigilators d (invig # invigs) code matching_duties =
     (if str_upper invig = code then matching_duties @ [d]
      else scan_invigilators d invigs code matching_duties)"

fun find_loop :: "duty list \<Rightarrow> string \<Rightarrow> duty list \<Rightarrow> duty list" where
  "find_loop [] code matching_duties = matching_duties"
| "find_loop (d # duties) code matching_duties =
     find_loop duties code (scan_invigilators d (invigilators d) code matching_duties)"

definition find_invigilator_duties :: "duty list \<Rightarrow> string \<Rightarrow> duty list" where
  "find_invigilator_duties duties code = (let code = str_upper code in find_loop duties code [])"

section \<open>The groups of a match\<close>

text \<open>
  \<open>groups r\<close> are the numbers of the groups that occur in \<open>r\<close>; a match of \<open>r\<close>
  leaves every other group as it was.
\<close>

fun groups :: "rx \<Rightarrow> nat set" where
  "groups (Seq r1 r2) = groups r1 \<union> groups r2"
| "groups (Alt r1 r2) = groups r1 \<union> groups r2"
| "groups (Grp n r) = insert n (groups r)"
| "groups (Look r) = groups r"
| "groups r = {}"

lemma rx_den_frame:
  "rx_den r p cs p' cs' \<Longrightarrow> n \<notin> groups r \<Longrightarrow> cs' n = cs n"
proof (induction r arbitrary: p cs p' cs')
  case (Cls P)
  then show ?case by (cases p) auto
next
  case (Rep P lo hi greedy)
  then show ?case by (cases p) auto
next
  case (Seq r1 r2)
  from Seq.prems(1) obtain p1 cs1
    where d1: "rx_den r1 p cs p1 cs1" and d2: "rx_den r2 p1 cs1 p' cs'"
    unfolding rx_den.simps by blast
  from Seq.prems(2) have "n \<notin> groups r1" "n \<notin> groups r2" by auto
  with Seq.IH(1) [OF d1] Seq.IH(2) [OF d2] show ?case by simp
next
  case (Alt r1 r2)
  from Alt.prems(1) have "rx_den r1 p cs p' cs' \<or> rx_den r2 p cs p' cs'" by simp
  moreover from Alt.prems(2) have "n \<notin> groups r1" "n \<notin> groups r2" by auto
  ultimately show ?case using Alt.IH by blast
next
  case (Grp m r)
  obtain b a where p: "p = (b, a)" by (cases p)
  from Grp.prems(1) p obtain cs1
    where d: "rx_den r (b, a) cs p' cs1" and cs': "cs' = cs1(m \<mapsto> take (length a - length (snd p')) a)"
    by auto
  from Grp.prems(2) have "n \<noteq> m" "n \<notin> groups r" by auto
  with Grp.IH [OF d] cs' p show ?case by simp
next
  case (Look r)
  from Look.prems(1) obtain p1 where "rx_den r p cs p1 cs'" by auto
  moreover from Look.prems(2) have "n \<notin> groups r" by simp
  ultimately show ?case using Look.IH by blast
next
  case Bol
  then show ?case by (cases p) auto
next
  case Eol
  then show ?case by (cases p) auto
next
  case WordB
  then show ?case by (cases p) auto
qed auto

text \<open>
  The expression inside group \<open>n\<close>, when the group lies on every path through \<open>r\<close>
  and nothing after it sets the group again.
\<close>

fun grp_of :: "nat \<Rightarrow> rx \<Rightarrow> rx option" where
  "grp_of n (Seq r1 r2) = (if n \<in> groups r2 then grp_of n r2 else grp_of n r1)"
| "grp_of n (Grp m r) = (if m = n then Some r else grp_of n r)"
| "grp_of n r = None"

lemma rx_den_group:
  "rx_den r p cs p' cs' \<Longrightarrow> grp_of n r = Some r0 \<Longrightarrow>
     \<exists>b0 u a1 cs0 cs1. rx_den r0 (b0, u @ a1) cs0 (rev u @ b0, a1) cs1 \<and> cs' n = Some u"
proof (induction r arbitrary: p cs p' cs')
  case (Seq r1 r2)
  from Seq.prems(1) obtain p1 cs1
    where d1: "rx_den r1 p cs p1 cs1" and d2: "rx_den r2 p1 cs1 p' cs'"
    unfolding rx_den.simps by blast
  show ?case
  proof (cases "n \<in> groups r2")
    case True
    with Seq.prems(2) have "grp_of n r2 = Some r0" by simp
    from Seq.IH(2) [OF d2 this] show ?thesis .
  next
    case False
    with Seq.prems(2) have "grp_of n r1 = Some r0" by simp
    from Seq.IH(1) [OF d1 this] rx_den_frame [OF d2 False] show ?thesis by simp
  qed
next
  case (Grp m r)
  obtain b a where p: "p = (b, a)" by (cases p)
  obtain b' a' where p': "p' = (b', a')" by (cases p')
  from Grp.prems(1) p p' obtain cs1
    where d: "rx_den r (b, a) cs (b', a') cs1" and cs': "cs' = cs1(m \<mapsto> take (length a - length a') a)"
    by auto
  show ?case
  proof (cases "m = n")
    case True
    with Grp.prems(2) have r0: "r0 = r" by simp
    from rx_den_moves [OF d] obtain u where u: "a = u @ a'" "b' = rev u @ b" by blast
    with cs' True have "cs' n = Some u" by simp
    with d u r0 show ?thesis by blast
  next
    case False
    with Grp.prems(2) have "grp_of n r = Some r0" by simp
    from Grp.IH [OF d this] cs' False show ?thesis by simp
  qed
qed simp_all

lemma re_match_den:
  "re_match r s = Some m \<Longrightarrow> rx_den r ([], s) (\<lambda>_. None) (fst (snd m)) (snd (snd m))"
  by (auto simp: re_match_def accept_def split: option.splits if_splits dest!: rx_match_sound)

lemma search_from_den:
  "search_from r adv b a = Some m \<Longrightarrow> rx_den r (fst m) (\<lambda>_. None) (fst (snd m)) (snd (snd m))"
proof (induction a arbitrary: adv b)
  case Nil
  then show ?case
    by (auto simp: accept_def split: option.splits if_splits dest!: rx_match_sound)
next
  case (Cons c a)
  show ?case
  proof (cases "rx_match r (accept adv (c # a)) (b, c # a) (\<lambda>_. None)")
    case None
    with Cons.prems have "search_from r False (c # b) a = Some m" by simp
    from Cons.IH [OF this] show ?thesis .
  next
    case (Some y)
    from rx_match_sound [OF Some] Cons.prems Some show ?thesis
      by (auto simp: accept_def split: if_splits)
  qed
qed

lemma re_search_den:
  "re_search r s = Some m \<Longrightarrow> rx_den r (fst m) (\<lambda>_. None) (fst (snd m)) (snd (snd m))"
  unfolding re_search_def by (rule search_from_den)

lemma finditer_den:
  "m \<in> set (finditer r adv b a) \<Longrightarrow> rx_den r (fst m) (\<lambda>_. None) (fst (snd m)) (snd (snd m))"
proof (induction r adv b a rule: finditer.induct)
  case (1 r adv b a)
  show ?case
  proof (cases "search_from r adv b a")
    case None
    with "1.prems" show ?thesis by (simp add: finditer.simps)
  next
    case (Some m0)
    obtain bs as be ae cs where m0: "m0 = ((bs, as), (be, ae), cs)" by (cases m0) auto
    from "1.prems" Some m0
    have "m = m0 \<or> m \<in> set (finditer r (length ae = length as) be ae)"
      by (subst (asm) finditer.simps) auto
    then show ?thesis
    proof
      assume "m = m0"
      with search_from_den [OF Some] show ?thesis by simp
    next
      assume "m \<in> set (finditer r (length ae = length as) be ae)"
      from "1.IH" [OF Some [unfolded m0] refl refl refl refl this] show ?thesis .
    qed
  qed
qed

text \<open>The groups of a match.\<close>

lemma den_group_text:
  assumes "rx_den r p cs p' cs'" and "grp_of n r = Some r0"
  obtains b0 u a1 cs0 cs1
  where "rx_den r0 (b0, u @ a1) cs0 (rev u @ b0, a1) cs1" and "cs' n = Some u"
  using rx_den_group [OF assms] by blast

lemma rx_den_Rep_text:
  assumes "rx_den (Rep P lo hi greedy) (b, u @ a) cs (rev u @ b, a) cs'"
  shows "lo \<le> length u \<and> (\<forall>h. hi = Some h \<longrightarrow> length u \<le> h) \<and> (\<forall>c \<in> set u. P c)"
proof -
  from assms have "\<exists>j. lo \<le> j \<and> j \<le> length (takeWhile P (u @ a)) \<and>
      (\<forall>h. hi = Some h \<longrightarrow> j \<le> h) \<and> a = drop j (u @ a)"
    by (simp only: rx_den.simps prod.inject) blast
  then obtain j where j: "lo \<le> j" "j \<le> length (takeWhile P (u @ a))"
    "\<forall>h. hi = Some h \<longrightarrow> j \<le> h" and a: "a = drop j (u @ a)"
    by blast
  have "length (takeWhile P (u @ a)) \<le> length (u @ a)" by (rule length_takeWhile_le)
  with j(2) have jl: "j \<le> length u + length a" by simp
  have "length a = length (drop j (u @ a))" by (rule arg_cong [where f = length, OF a])
  then have "length a = length u + length a - j" unfolding length_drop length_append .
  with jl have ju: "j = length u" by arith
  have "\<forall>c \<in> set u. P c"
  proof
    fix c assume "c \<in> set u"
    then obtain i where i: "i < length u" "u ! i = c" by (auto simp: in_set_conv_nth)
    with ju j(2) have il: "i < length (takeWhile P (u @ a))" by simp
    then have "takeWhile P (u @ a) ! i \<in> set (takeWhile P (u @ a))" by simp
    then have "P (takeWhile P (u @ a) ! i)" by (rule set_takeWhileD [THEN conjunct2])
    with il have "P ((u @ a) ! i)" by (simp add: takeWhile_nth)
    with i show "P c" by (simp add: nth_append)
  qed
  with j ju show ?thesis by simp
qed

subsection \<open>The groups of the program's patterns\<close>

lemma rx_den_group_set:
  "rx_den r p cs p' cs' \<Longrightarrow> grp_of n r = Some r0 \<Longrightarrow> cs' n \<noteq> None"
  by (drule (1) rx_den_group) auto

lemma rx_den_group_digits:
  assumes "rx_den r p cs p' cs'" and "grp_of n r = Some (times 3 is_digit)"
  shows "\<exists>u. cs' n = Some u \<and> length u = 3"
proof -
  from assms obtain b0 u a1 cs0 cs1
    where d: "rx_den (times 3 is_digit) (b0, u @ a1) cs0 (rev u @ b0, a1) cs1" and u: "cs' n = Some u"
    by (rule den_group_text)
  from rx_den_Rep_text [OF d] have "length u = 3" by simp
  with u show ?thesis by simp
qed

lemma grp_single_room: "grp_of 1 single_room_rx = Some (times 3 is_digit)"
  by (simp add: single_room_rx_def)

lemma grp_rooms: "grp_of 1 rooms_rx = Some (times 3 is_digit)"
  by (simp add: rooms_rx_def)

lemma grp_room_pattern: "grp_of 1 room_pattern = Some (times 3 is_digit)"
  by (simp add: room_pattern_def)

lemma grp_date_time: "grp_of 1 date_time_rx \<noteq> None" "grp_of 2 date_time_rx \<noteq> None"
  by (simp_all add: date_time_rx_def lit_def)

lemma grp_course:
  "grp_of 1 course_rx = Some (seqs [between 2 4 is_AZ, star py_isspace, times 3 is_digit])"
  "grp_of 2 course_rx \<noteq> None"
  by (simp_all add: course_rx_def)

lemma grp_title: "grp_of 1 title_rx \<noteq> None"
  by (simp add: title_rx_def)

lemma single_room_group:
  "re_search single_room_rx e = Some m \<Longrightarrow> \<exists>u. group m 1 = Some u \<and> length u = 3"
  unfolding group_def by (rule rx_den_group_digits [OF re_search_den grp_single_room])

lemma rooms_findall:
  assumes "r \<in> set (re_findall1 rooms_rx e)"
  shows "length r = 3"
proof -
  from assms obtain m where m: "m \<in> set (finditer rooms_rx False [] e)" and r: "r = group_str m 1"
    by (auto simp: re_findall1_def)
  from rx_den_group_digits [OF finditer_den [OF m] grp_rooms] r show ?thesis
    by (auto simp: group_str_def group_def)
qed

lemma room_pattern_findall:
  assumes "(r, t) \<in> set (re_findall2 room_pattern e)"
  shows "length r = 3"
proof -
  from assms obtain m where m: "m \<in> set (finditer room_pattern False [] e)" and r: "r = group_str m 1"
    by (auto simp: re_findall2_def)
  from rx_den_group_digits [OF finditer_den [OF m] grp_room_pattern] r show ?thesis
    by (auto simp: group_str_def group_def)
qed

lemma date_time_groups:
  assumes "re_search date_time_rx line = Some m"
  shows "group m 1 \<noteq> None" "group m 2 \<noteq> None"
  using grp_date_time rx_den_group_set [OF re_search_den [OF assms]]
  unfolding group_def by auto

lemma title_group:
  assumes "re_search title_rx t = Some m"
  shows "group m 1 \<noteq> None"
  using grp_title rx_den_group_set [OF re_search_den [OF assms]]
  unfolding group_def by auto

lemma rx_den_SeqE:
  assumes "rx_den (Seq r1 r2) p cs p' cs'"
  obtains p1 cs1 where "rx_den r1 p cs p1 cs1" and "rx_den r2 p1 cs1 p' cs'"
  using assms by (simp only: rx_den.simps) blast

lemma AZ_not_space: "is_AZ c \<Longrightarrow> \<not> py_isspace c"
  by (auto simp: is_AZ_def py_isspace_def less_eq_char_def)

lemma in_set_dropWhile: "x \<in> set xs \<Longrightarrow> \<not> P x \<Longrightarrow> x \<in> set (dropWhile P xs)"
  by (induction xs) auto

lemma str_strip_nonempty: "c \<in> set s \<Longrightarrow> \<not> py_isspace c \<Longrightarrow> str_strip s \<noteq> []"
proof -
  assume c: "c \<in> set s" "\<not> py_isspace c"
  then have "c \<in> set (rev (dropWhile py_isspace s))" by (simp add: in_set_dropWhile)
  with c(2) have "c \<in> set (dropWhile py_isspace (rev (dropWhile py_isspace s)))"
    by (simp add: in_set_dropWhile)
  then have "dropWhile py_isspace (rev (dropWhile py_isspace s)) \<noteq> []"
    by (metis empty_iff empty_set)
  then show ?thesis by (simp add: str_strip_def del: dropWhile_eq_Nil_conv)
qed

lemma course_groups:
  assumes "re_match course_rx line = Some m"
  shows "\<exists>g. group m 1 = Some g \<and> str_strip g \<noteq> []" and "group m 2 \<noteq> None"
proof -
  have d: "rx_den course_rx ([], line) (\<lambda>_. None) (fst (snd m)) (snd (snd m))"
    by (rule re_match_den [OF assms])
  from d grp_course(1) obtain b0 u a1 cs0 cs1
    where g: "rx_den (seqs [between 2 4 is_AZ, star py_isspace, times 3 is_digit])
                (b0, u @ a1) cs0 (rev u @ b0, a1) cs1"
      and u: "snd (snd m) 1 = Some u"
    by (rule den_group_text)
  from g have "rx_den (Seq (between 2 4 is_AZ) (Seq (star py_isspace) (times 3 is_digit)))
                (b0, u @ a1) cs0 (rev u @ b0, a1) cs1"
    by (simp only: seqs.simps)
  then obtain p1 cs2 where d1: "rx_den (between 2 4 is_AZ) (b0, u @ a1) cs0 p1 cs2"
    and d2: "rx_den (Seq (star py_isspace) (times 3 is_digit)) p1 cs2 (rev u @ b0, a1) cs1"
    by (rule rx_den_SeqE)
  obtain b1 a2 where p1: "p1 = (b1, a2)" by (cases p1)
  from rx_den_moves [OF d1 [unfolded p1]] obtain v where v: "u @ a1 = v @ a2" "b1 = rev v @ b0"
    by blast
  from rx_den_moves [OF d2 [unfolded p1]] obtain w where w: "a2 = w @ a1" by blast
  from v w have uvw: "u = v @ w" by simp
  from d1 p1 v have "rx_den (between 2 4 is_AZ) (b0, v @ a2) cs0 (rev v @ b0, a2) cs2" by simp
  from rx_den_Rep_text [OF this] have "2 \<le> length v" "\<forall>c \<in> set v. is_AZ c" by auto
  then obtain c where "c \<in> set v" "is_AZ c" by (cases v) auto
  with uvw have "c \<in> set u" "\<not> py_isspace c" by (auto dest: AZ_not_space)
  then have "str_strip u \<noteq> []" by (rule str_strip_nonempty)
  with u show "\<exists>g. group m 1 = Some g \<and> str_strip g \<noteq> []" by (simp add: group_def)
  from grp_course(2) rx_den_group_set [OF d] show "group m 2 \<noteq> None"
    unfolding group_def by auto
qed

lemma split_words_cur: "cur \<noteq> [] \<Longrightarrow> split_words cur s \<noteq> []"
  by (induction s arbitrary: cur) auto

lemma split_words_nonempty: "c \<in> set s \<Longrightarrow> \<not> py_isspace c \<Longrightarrow> split_words cur s \<noteq> []"
  by (induction s arbitrary: cur) (auto simp: split_words_cur)

lemma str_strip_has_char:
  assumes "str_strip s \<noteq> []"
  shows "\<exists>c \<in> set (str_strip s). \<not> py_isspace c"
proof -
  let ?w = "dropWhile py_isspace (rev (dropWhile py_isspace s))"
  from assms have w: "?w \<noteq> []" by (simp add: str_strip_def)
  then have "\<not> py_isspace (hd ?w)" by (rule hd_dropWhile)
  moreover from w have "hd ?w \<in> set (str_strip s)" by (simp add: str_strip_def)
  ultimately show ?thesis by blast
qed

lemma str_split_strip:
  assumes "str_strip s \<noteq> []"
  shows "str_split (str_strip s) \<noteq> []"
proof -
  from str_strip_has_char [OF assms] obtain c
    where "c \<in> set (str_strip s)" "\<not> py_isspace c" by blast
  then show ?thesis unfolding str_split_def by (rule split_words_nonempty)
qed

section \<open>The Code Extractor\<close>

subsection \<open>Upper case\<close>

text \<open>
  Facts about single characters are checked on each of the 256 characters in turn.
\<close>

lemma upper_char_cases: "upper_char c = ''SS'' \<or> (\<exists>u. upper_char c = [u])"
  by (simp add: upper_char_def)

lemma upper_char_idem_enum:
  "\<forall>c \<in> set (Enum.enum :: char list). \<forall>x \<in> set (upper_char c). upper_char x = [x]"
  by code_simp

lemma upper_char_idem: "x \<in> set (upper_char c) \<Longrightarrow> upper_char x = [x]"
  using upper_char_idem_enum by (simp add: enum_UNIV)

lemma str_upper_fixed: "\<forall>x \<in> set t. upper_char x = [x] \<Longrightarrow> str_upper t = t"
  by (induction t) (auto simp: str_upper_def)

lemma set_str_upper: "set (str_upper s) = (\<Union>c \<in> set s. set (upper_char c))"
  by (simp add: str_upper_def)

lemma str_upper_idem: "str_upper (str_upper s) = str_upper s"
  by (rule str_upper_fixed) (auto simp: set_str_upper dest: upper_char_idem)

lemma length_upper_char: "1 \<le> length (upper_char c)"
  by (simp add: upper_char_def)

lemma length_str_upper: "length s \<le> length (str_upper s)"
proof (induction s)
  case Nil
  then show ?case by (simp add: str_upper_def)
next
  case (Cons c s)
  with length_upper_char [of c] show ?case by (simp add: str_upper_def)
qed

subsection \<open>The exclusion pattern\<close>

lemma rx_match_Eps_eta: "rx_match Eps k = k"
  by (rule ext)+ simp

lemma rx_match_seqs_Cons:
  "rx_match (seqs (r # rs)) k p cs = rx_match r (rx_match (seqs rs) k) p cs"
  by (cases rs) (simp_all add: rx_match_Eps_eta)

lemma lit_ignorecase_match:
  "map upper_char c = map upper_char w \<Longrightarrow>
     rx_match (lit_ignorecase w) k (b, c @ a) cs = k (rev c @ b, a) cs"
proof (induction w arbitrary: c b)
  case Nil
  then show ?case by (simp add: lit_ignorecase_def)
next
  case (Cons x w)
  then obtain y c' where c: "c = y # c'" and y: "upper_char y = upper_char x"
    and c': "map upper_char c' = map upper_char w"
    by (cases c) auto
  have "rx_match (lit_ignorecase (x # w)) k (b, c @ a) cs =
        rx_match (Cls (\<lambda>z. upper_char z = upper_char x)) (rx_match (lit_ignorecase w) k) (b, c @ a) cs"
    unfolding lit_ignorecase_def by (simp add: rx_match_seqs_Cons)
  also have "\<dots> = rx_match (lit_ignorecase w) k (y # b, c' @ a) cs"
    using c y by simp
  also have "\<dots> = k (rev c' @ y # b, a) cs"
    by (rule Cons.IH [OF c'])
  finally show ?case using c by simp
qed

lemma alts_not_None:
  "r \<in> set (r0 # rs) \<Longrightarrow> rx_match r k p cs \<noteq> None \<Longrightarrow> rx_match (alts r0 rs) k p cs \<noteq> None"
proof (induction rs arbitrary: r0)
  case Nil
  then show ?case by simp
next
  case (Cons r1 rs)
  show ?case
  proof (cases "r = r0")
    case True
    with Cons.prems show ?thesis by (auto split: option.splits)
  next
    case False
    with Cons.prems have "r \<in> set (r1 # rs)" by simp
    from Cons.IH [OF this Cons.prems(2)] show ?thesis by (auto split: option.splits)
  qed
qed

lemma str_upper_parts:
  "str_upper c = e \<Longrightarrow> \<not> str_in ''SS'' e \<Longrightarrow> map upper_char c = map (\<lambda>x. [x]) e"
proof (induction c arbitrary: e)
  case Nil
  then show ?case by (simp add: str_upper_def)
next
  case (Cons x c)
  from upper_char_cases [of x] show ?case
  proof
    assume "upper_char x = ''SS''"
    with Cons.prems show ?thesis by (auto simp: str_upper_def)
  next
    assume "\<exists>u. upper_char x = [u]"
    then obtain u where u: "upper_char x = [u]" ..
    with Cons.prems(1) have e: "e = u # str_upper c" by (simp add: str_upper_def)
    with Cons.prems(2) have "\<not> str_in ''SS'' (str_upper c)" by simp
    from Cons.IH [OF refl this] u e show ?thesis by simp
  qed
qed

lemma excluded_no_SS: "\<forall>e \<in> set excluded_codes. \<not> str_in ''SS'' e"
  by code_simp

lemma excluded_upper: "\<forall>e \<in> set excluded_codes. str_upper e = e"
  by code_simp

lemma exclude_rx_matches:
  assumes "str_upper c = e" and "e \<in> set excluded_codes"
  shows "re_match exclude_rx c \<noteq> None"
proof -
  from assms excluded_no_SS have "map upper_char c = map (\<lambda>x. [x]) e"
    by (auto intro: str_upper_parts)
  moreover have "map upper_char e = map (\<lambda>x. [x]) e"
  proof -
    have "\<forall>x \<in> set e. upper_char x = [x]"
      using assms(1) by (auto simp: set_str_upper dest: upper_char_idem)
    then show ?thesis by simp
  qed
  ultimately have m: "map upper_char c = map upper_char e" by simp
  let ?K = "\<lambda>(b', a') cs'. rx_match Eol (accept False c) (b', a')
               (cs'(1 \<mapsto> take (length c - length a') c))"
  let ?e0 = "\<lambda>_. None :: string option"
  have "rx_match (lit_ignorecase e) ?K ([], c @ []) ?e0 = ?K (rev c @ [], []) ?e0"
    by (rule lit_ignorecase_match [OF m])
  then have nn: "rx_match (lit_ignorecase e) ?K ([], c) ?e0 \<noteq> None"
    by (simp add: accept_def)
  have "lit_ignorecase e \<in> set (lit_ignorecase ''BBA'' #
      map lit_ignorecase [''CSE'', ''ENG'', ''TEX'', ''BTE'', ''EEE'', ''CEN'', ''LLB'', ''JRN'',
                        ''BFT'', ''LLM'', ''MJR'', ''ENF''])"
    using assms(2) by (auto simp: excluded_codes_def)
  from this nn have "rx_match (alts (lit_ignorecase ''BBA'')
      (map lit_ignorecase [''CSE'', ''ENG'', ''TEX'', ''BTE'', ''EEE'', ''CEN'', ''LLB'', ''JRN'',
                        ''BFT'', ''LLM'', ''MJR'', ''ENF''])) ?K ([], c) ?e0 \<noteq> None"
    by (rule alts_not_None)
  then show ?thesis
    by (simp add: re_match_def exclude_rx_def split: option.splits)
qed

lemma valid_codes_loop_eq:
  "valid_codes_loop codes valid_codes =
     valid_codes @
     map str_upper (filter (\<lambda>code. 2 \<le> length code \<and> re_match exclude_rx code = None) codes)"
  by (induction codes arbitrary: valid_codes) auto

lemma extract_codes_source:
  assumes "code \<in> set (extract_invigilator_codes txt)"
  obtains c where "code = str_upper c" and "2 \<le> length c" and "re_match exclude_rx c = None"
  using assms
  by (auto simp: extract_invigilator_codes_def valid_codes_loop_eq Let_def split: if_splits)

lemma extract_codes_upper:
  assumes "code \<in> set (extract_invigilator_codes txt)"
  shows "str_upper code = code"
  using assms by (rule extract_codes_source) (simp add: str_upper_idem)

text \<open>
  Claim C6. Every code returned by \<open>extract_invigilator_codes\<close> is in upper case, has
  at least two characters, and differs from every member of the exclusion set when the
  two are compared without regard to case.
\<close>

theorem extract_codes_valid:
  assumes "code \<in> set (extract_invigilator_codes txt)"
  shows "str_upper code = code \<and> 2 \<le> length code \<and>
         (\<forall>e \<in> set excluded_codes. str_upper code \<noteq> str_upper e)"
proof -
  from assms obtain c where code: "code = str_upper c" and len: "2 \<le> length c"
    and nm: "re_match exclude_rx c = None"
    by (rule extract_codes_source)
  have 1: "str_upper code = code" by (simp add: code str_upper_idem)
  from len length_str_upper [of c] have 2: "2 \<le> length code" by (simp add: code)
  have 3: "\<forall>e \<in> set excluded_codes. str_upper code \<noteq> str_upper e"
  proof
    fix e assume e: "e \<in> set excluded_codes"
    show "str_upper code \<noteq> str_upper e"
    proof
      assume "str_upper code = str_upper e"
      with e excluded_upper have "str_upper c = e" by (simp add: code str_upper_idem)
      from exclude_rx_matches [OF this e] nm show False by simp
    qed
  qed
  from 1 2 3 show ?thesis by blast
qed

text \<open>
  In a text with \<open>cse\<close> and the one-letter token \<open>X\<close>, the code \<open>ABC12\<close> is returned
  in upper case; \<open>CSE\<close> and \<open>X\<close> are not returned.
\<close>

theorem extract_codes_valid_witness:
  "extract_invigilator_codes ''ZBS+MNJ cse Abc12 rest 3509803 X YZ'' =
     [''ZBS'', ''MNJ'', ''ABC12'', ''YZ''] \<and>
   str_upper ''ABC12'' = ''ABC12'' \<and> 2 \<le> length ''ABC12'' \<and>
   list_all (\<lambda>e. str_upper ''ABC12'' \<noteq> str_upper e) excluded_codes"
proof -
  have v: "extract_invigilator_codes ''ZBS+MNJ cse Abc12 rest 3509803 X YZ'' =
     [''ZBS'', ''MNJ'', ''ABC12'', ''YZ'']"
    by code_simp
  then have "''ABC12'' \<in> set (extract_invigilator_codes ''ZBS+MNJ cse Abc12 rest 3509803 X YZ'')"
    by simp
  from extract_codes_valid [OF this] v show ?thesis unfolding list_all_iff by blast
qed

section \<open>The segmenter\<close>

text \<open>
  The three methods of \<open>parse_room_assignments\<close>, each on its own, applied to the
  entry text with its white space already collapsed (\<open>normalize_entry\<close>).
\<close>

definition normalize_entry :: "string \<Rightarrow> string" where
  "normalize_entry entry_text = str_strip (re_sub whitespace_rx '' '' entry_text)"

definition strategy_a :: "string \<Rightarrow> string \<Rightarrow> string \<Rightarrow> string \<Rightarrow> string \<Rightarrow> duty list" where
  "strategy_a course_code course_title entry_text date_v time_v =
     method1_loop course_code course_title date_v time_v (re_findall2 room_pattern entry_text) []"

definition strategy_b :: "string \<Rightarrow> string \<Rightarrow> string \<Rightarrow> string \<Rightarrow> string \<Rightarrow> duty list" where
  "strategy_b course_code course_title entry_text date_v time_v =
     method2_loop course_code course_title date_v time_v
       (extract_invigilator_codes (method2_text entry_text)) (re_findall1 rooms_rx entry_text) []"

definition strategy_c :: "string \<Rightarrow> string \<Rightarrow> string \<Rightarrow> string \<Rightarrow> string \<Rightarrow> duty list" where
  "strategy_c course_code course_title entry_text date_v time_v =
     (case re_search single_room_rx entry_text of
        None \<Rightarrow> []
      | Some single_room_match \<Rightarrow>
          (case group single_room_match 1 of
             None \<Rightarrow> []
           | Some room_no \<Rightarrow>
               [\<lparr>date = date_v, time = time_v, course = course_code, title = course_title,
                 room = room_no,
                 invigilators = extract_invigilator_codes (match_end single_room_match)\<rparr>]))"

lemma method1_loop_eq:
  "method1_loop course_code course_title date_v time_v room_matches duties =
     duties @
     map (\<lambda>(room_no, invig_text).
            \<lparr>date = date_v, time = time_v, course = course_code, title = course_title,
             room = room_no, invigilators = extract_invigilator_codes invig_text\<rparr>)
       (filter (\<lambda>(room_no, invig_text). extract_invigilator_codes invig_text \<noteq> []) room_matches)"
  by (induction room_matches arbitrary: duties) (auto simp: Let_def)

lemma method2_loop_eq:
  "method2_loop course_code course_title date_v time_v invigs rooms duties =
     duties @
     map (\<lambda>room_no. \<lparr>date = date_v, time = time_v, course = course_code, title = course_title,
                      room = room_no, invigilators = invigs\<rparr>) rooms"
  by (induction rooms arbitrary: duties) auto

lemma parse_room_assignments_cascade:
  "parse_room_assignments course_code course_title entry_text date_v time_v =
     (let e = normalize_entry entry_text;
          a = strategy_a course_code course_title e date_v time_v;
          b = strategy_b course_code course_title e date_v time_v;
          c = strategy_c course_code course_title e date_v time_v
      in if a \<noteq> [] then a else if b \<noteq> [] then b else c)"
  by (simp add: parse_room_assignments_def normalize_entry_def strategy_a_def strategy_b_def
        strategy_c_def Let_def split: option.splits)

text \<open>
  Claim C5. The segmenter applies the three strategies in the order A, B, C and returns
  the records of the first one that gives any: the records of A alone when A gives a
  record, else those of B alone when B gives a record, else those of C.
\<close>

theorem strategy_order:
  "parse_room_assignments course_code course_title entry_text date_v time_v =
     (let e = normalize_entry entry_text;
          a = strategy_a course_code course_title e date_v time_v;
          b = strategy_b course_code course_title e date_v time_v;
          c = strategy_c course_code course_title e date_v time_v
      in if a \<noteq> [] then a else if b \<noteq> [] then b else c)"
proof -
  let ?e = "str_strip (re_sub whitespace_rx '' '' entry_text)"
  let ?a = "method1_loop course_code course_title date_v time_v (re_findall2 room_pattern ?e) []"
  let ?b = "method2_loop course_code course_title date_v time_v
              (extract_invigilator_codes (method2_text ?e)) (re_findall1 rooms_rx ?e) []"
  show ?thesis
  proof (cases "?a = []")
    case False
    then show ?thesis
      by (simp add: parse_room_assignments_def normalize_entry_def strategy_a_def Let_def)
  next
    case True
    note a = this
    show ?thesis
    proof (cases "?b = []")
      case False
      with a show ?thesis
        by (simp add: parse_room_assignments_def normalize_entry_def strategy_a_def
              strategy_b_def Let_def)
    next
      case True
      with a show ?thesis
        by (simp add: parse_room_assignments_def normalize_entry_def strategy_a_def
              strategy_b_def strategy_c_def Let_def split: option.splits)
    qed
  qed
qed

text \<open>
  An entry with an explicit pair is answered by strategy A; an entry whose only pair gives
  no code is answered by strategy B.
\<close>

theorem strategy_order_witness:
  "parse_room_assignments ''CSE 101'' ''Intro'' ''308   (20) ZBS+MNJ'' ''01/02/2024'' ''(09:00am - 12:00pm)'' =
     strategy_a ''CSE 101'' ''Intro'' ''308 (20) ZBS+MNJ'' ''01/02/2024'' ''(09:00am - 12:00pm)'' \<and>
   strategy_a ''CSE 101'' ''Intro'' ''308 (20) ZBS+MNJ'' ''01/02/2024'' ''(09:00am - 12:00pm)'' \<noteq> [] \<and>
   parse_room_assignments ''CSE 101'' ''Intro'' ''308   (20) CSE'' ''01/02/2024'' ''(09:00am - 12:00pm)'' =
     strategy_b ''CSE 101'' ''Intro'' ''308 (20) CSE'' ''01/02/2024'' ''(09:00am - 12:00pm)'' \<and>
   strategy_a ''CSE 101'' ''Intro'' ''308 (20) CSE'' ''01/02/2024'' ''(09:00am - 12:00pm)'' = [] \<and>
   strategy_b ''CSE 101'' ''Intro'' ''308 (20) CSE'' ''01/02/2024'' ''(09:00am - 12:00pm)'' \<noteq> []"
proof -
  have n: "normalize_entry ''308   (20) ZBS+MNJ'' = ''308 (20) ZBS+MNJ''"
    "normalize_entry ''308   (20) CSE'' = ''308 (20) CSE''"
    by code_simp+
  have a1: "strategy_a ''CSE 101'' ''Intro'' ''308 (20) ZBS+MNJ'' ''01/02/2024'' ''(09:00am - 12:00pm)'' \<noteq> []"
    by code_simp
  have a2: "strategy_a ''CSE 101'' ''Intro'' ''308 (20) CSE'' ''01/02/2024'' ''(09:00am - 12:00pm)'' = []"
    by code_simp
  have b2: "strategy_b ''CSE 101'' ''Intro'' ''308 (20) CSE'' ''01/02/2024'' ''(09:00am - 12:00pm)'' \<noteq> []"
    by code_simp
  show ?thesis unfolding strategy_order by (simp add: n a1 a2 b2 Let_def)
qed

text \<open>
  Claim C1, as the program has it. Strategy A yields one record for each occurrence of
  the room pattern whose trailing text gives at least one code to the Code Extractor, in
  the order of the occurrences; the record has the room of the occurrence and the codes
  extracted from its trailing text. An occurrence whose trailing text gives no code
  yields no record.
\<close>

theorem strategy_a_records:
  "strategy_a course_code course_title entry_text date_v time_v =
     map (\<lambda>(room_no, invig_text).
            \<lparr>date = date_v, time = time_v, course = course_code, title = course_title,
             room = room_no, invigilators = extract_invigilator_codes invig_text\<rparr>)
       (filter (\<lambda>(room_no, invig_text). extract_invigilator_codes invig_text \<noteq> [])
          (re_findall2 room_pattern entry_text))"
  by (simp add: strategy_a_def method1_loop_eq)

lemma findall_two_rooms:
  "re_findall2 room_pattern ''308 (20) ZBS+MNJ 309 (15) CSE'' =
     [(''308'', ''ZBS+MNJ''), (''309'', ''CSE'')]"
  by code_simp

lemma extract_ZBS_MNJ: "extract_invigilator_codes ''ZBS+MNJ'' = [''ZBS'', ''MNJ'']"
  by code_simp

lemma extract_CSE: "extract_invigilator_codes ''CSE'' = []"
  by code_simp

text \<open>Two occurrences, the second without a code: one record.\<close>

theorem strategy_a_records_witness:
  "strategy_a ''CSE 101'' ''Intro'' ''308 (20) ZBS+MNJ 309 (15) CSE'' ''01/02/2024''
     ''(09:00am - 12:00pm)'' =
     [\<lparr>date = ''01/02/2024'', time = ''(09:00am - 12:00pm)'', course = ''CSE 101'',
       title = ''Intro'', room = ''308'', invigilators = [''ZBS'', ''MNJ'']\<rparr>]"
  unfolding strategy_a_records by (simp add: findall_two_rooms extract_ZBS_MNJ extract_CSE)

text \<open>
  The claim as the specification states it (one record for each occurrence, also when no
  code is extracted) fails: in \<open>308 (20) CSE\<close> the room pattern occurs once, with the
  trailing text \<open>CSE\<close>, which gives no code, and strategy A yields no record.
\<close>

theorem strategy_a_counterexample:
  "re_findall2 room_pattern ''308 (20) CSE'' = [(''308'', ''CSE'')] \<and>
   extract_invigilator_codes ''CSE'' = [] \<and>
   strategy_a ''CSE 101'' ''Intro'' ''308 (20) CSE'' ''01/02/2024'' ''(09:00am - 12:00pm)'' = []"
  by code_simp

subsection \<open>The records of the segmenter\<close>

text \<open>
  Every record of the segmenter has the course, title, date and time it was called with,
  a room of three characters, and the codes of one call of the Code Extractor.
\<close>

lemma strategy_a_record:
  assumes "d \<in> set (strategy_a c t e dv tv)"
  shows "course d = c \<and> title d = t \<and> date d = dv \<and> time d = tv \<and> length (room d) = 3 \<and>
         (\<exists>x. invigilators d = extract_invigilator_codes x)"
proof -
  from assms obtain r x where rx: "(r, x) \<in> set (re_findall2 room_pattern e)"
    and d: "d = \<lparr>date = dv, time = tv, course = c, title = t, room = r,
                  invigilators = extract_invigilator_codes x\<rparr>"
    by (auto simp: strategy_a_def method1_loop_eq)
  from room_pattern_findall [OF rx] d show ?thesis by auto
qed

lemma strategy_b_record:
  assumes "d \<in> set (strategy_b c t e dv tv)"
  shows "course d = c \<and> title d = t \<and> date d = dv \<and> time d = tv \<and> length (room d) = 3 \<and>
         (\<exists>x. invigilators d = extract_invigilator_codes x)"
proof -
  from assms obtain r where r: "r \<in> set (re_findall1 rooms_rx e)"
    and d: "d = \<lparr>date = dv, time = tv, course = c, title = t, room = r,
                  invigilators = extract_invigilator_codes (method2_text e)\<rparr>"
    by (auto simp: strategy_b_def method2_loop_eq)
  from rooms_findall [OF r] d show ?thesis by auto
qed

lemma strategy_c_record:
  assumes "d \<in> set (strategy_c c t e dv tv)"
  shows "course d = c \<and> title d = t \<and> date d = dv \<and> time d = tv \<and> length (room d) = 3 \<and>
         (\<exists>x. invigilators d = extract_invigilator_codes x)"
proof (cases "re_search single_room_rx e")
  case None
  with assms show ?thesis by (simp add: strategy_c_def)
next
  case (Some m)
  from single_room_group [OF Some] obtain r where r: "group m 1 = Some r" "length r = 3"
    by blast
  with assms Some
  have "d = \<lparr>date = dv, time = tv, course = c, title = t, room = r,
              invigilators = extract_invigilator_codes (match_end m)\<rparr>"
    by (simp add: strategy_c_def)
  with r show ?thesis by auto
qed

lemma parse_room_assignments_record:
  assumes "d \<in> set (parse_room_assignments c t e dv tv)"
  shows "course d = c \<and> title d = t \<and> date d = dv \<and> time d = tv \<and> length (room d) = 3 \<and>
         (\<exists>x. invigilators d = extract_invigilator_codes x)"
proof -
  let ?e = "normalize_entry e"
  from assms have "d \<in> set (strategy_a c t ?e dv tv) \<or> d \<in> set (strategy_b c t ?e dv tv) \<or>
     d \<in> set (strategy_c c t ?e dv tv)"
    by (auto simp: parse_room_assignments_cascade Let_def split: if_splits)
  then show ?thesis
    using strategy_a_record strategy_b_record strategy_c_record by blast
qed

section \<open>The scan of the lines\<close>

subsection \<open>Termination\<close>

text \<open>
  The outer loop with a bound on the number of passes through its body: \<open>None\<close> when
  the bound is used up before the loop has ended.
\<close>

fun parse_iter ::
  "nat \<Rightarrow> string list \<Rightarrow> nat \<Rightarrow> string option \<Rightarrow> string option \<Rightarrow> duty list \<Rightarrow>
     (py_error + duty list) option" where
  "parse_iter 0 lines i current_date current_time duties =
     (if i < length lines then None else Some (Inr duties))"
| "parse_iter (Suc n) lines i current_date current_time duties =
     (if i < length lines then
        (case loop_body lines i current_date current_time duties of
           Inl e \<Rightarrow> Some (Inl e)
         | Inr (i', current_date', current_time', duties') \<Rightarrow>
             parse_iter n lines i' current_date' current_time' duties')
      else Some (Inr duties))"

lemma parse_iter_enough:
  "length lines - i \<le> n \<Longrightarrow>
     parse_iter n lines i current_date current_time duties =
       Some (parse_loop lines i current_date current_time duties)"
proof (induction n arbitrary: i current_date current_time duties)
  case 0
  then show ?case by (subst parse_loop.simps) simp
next
  case (Suc n)
  show ?case
  proof (cases "i < length lines")
    case False
    then show ?thesis by (subst parse_loop.simps) simp
  next
    case True
    show ?thesis
    proof (cases "loop_body lines i current_date current_time duties")
      case (Inl e)
      with True show ?thesis by (subst parse_loop.simps) simp
    next
      case (Inr r)
      obtain i' d' t' ds' where r: "r = (i', d', t', ds')" by (cases r)
      from Inr r have "i < i'" by (auto dest: loop_body_cursor)
      with Suc.prems have "length lines - i' \<le> n" by simp
      from Suc.IH [OF this] Inr r True show ?thesis
        by (subst parse_loop.simps) simp
    qed
  qed
qed

text \<open>
  Claim C10. \<open>parse_schedule\<close> terminates on every text. Each pass through the body of
  the outer loop moves the cursor forward, the inner loop started at \<open>i + 1\<close> never ends
  before \<open>i + 1\<close>, and the outer loop ends within as many passes as the text has lines.
\<close>

theorem parse_schedule_terminates:
  "let lines = split_lines [] txt in
     (\<forall>i current_date current_time duties i' current_date' current_time' duties'.
        loop_body lines i current_date current_time duties =
          Inr (i', current_date', current_time', duties') \<longrightarrow> i < i') \<and>
     (\<forall>i full_entry. i + 1 \<le> fst (collect_entry lines (i + 1) full_entry)) \<and>
     parse_iter (length lines) lines 0 None None [] = Some (parse_schedule txt)"
  unfolding Let_def parse_schedule_def
  using loop_body_cursor collect_entry_cursor parse_iter_enough [of "split_lines [] txt" 0 "length (split_lines [] txt)"]
  by auto

text \<open>
  On the two lines of the end-to-end scenario: the first pass moves the cursor from 0 to
  1, and two passes complete the scan.
\<close>

theorem parse_schedule_terminates_witness:
  "loop_body [''Date: 01/02/2024 Time: (09:00am - 12:00pm)'',
              ''CSE 101 Intro to CS 308 (20)3509803-822 ZBS+MNJ''] 0 None None [] =
     Inr (1, Some ''01/02/2024'', Some ''(09:00am - 12:00pm)'', []) \<and>
   (0::nat) < 1 \<and>
   parse_iter 2 [''Date: 01/02/2024 Time: (09:00am - 12:00pm)'',
                 ''CSE 101 Intro to CS 308 (20)3509803-822 ZBS+MNJ''] 0 None None [] =
     Some (Inr [\<lparr>date = ''01/02/2024'', time = ''(09:00am - 12:00pm)'', course = ''CSE 101'',
                 title = ''Intro to CS'', room = ''308'', invigilators = [''ZBS'', ''MNJ'']\<rparr>])"
proof -
  let ?txt = "''Date: 01/02/2024 Time: (09:00am - 12:00pm)'' @ [CHR 0x0A] @
              ''CSE 101 Intro to CS 308 (20)3509803-822 ZBS+MNJ''"
  have l: "split_lines [] ?txt =
     [''Date: 01/02/2024 Time: (09:00am - 12:00pm)'',
      ''CSE 101 Intro to CS 308 (20)3509803-822 ZBS+MNJ'']"
    by code_simp
  have p: "parse_schedule ?txt =
     Inr [\<lparr>date = ''01/02/2024'', time = ''(09:00am - 12:00pm)'', course = ''CSE 101'',
           title = ''Intro to CS'', room = ''308'', invigilators = [''ZBS'', ''MNJ'']\<rparr>]"
    by code_simp
  have b: "loop_body [''Date: 01/02/2024 Time: (09:00am - 12:00pm)'',
              ''CSE 101 Intro to CS 308 (20)3509803-822 ZBS+MNJ''] 0 None None [] =
     Inr (1, Some ''01/02/2024'', Some ''(09:00am - 12:00pm)'', [])"
    by code_simp
  from parse_schedule_terminates [of ?txt] have
    "parse_iter 2 [''Date: 01/02/2024 Time: (09:00am - 12:00pm)'',
                 ''CSE 101 Intro to CS 308 (20)3509803-822 ZBS+MNJ''] 0 None None [] =
     Some (Inr [\<lparr>date = ''01/02/2024'', time = ''(09:00am - 12:00pm)'', course = ''CSE 101'',
                 title = ''Intro to CS'', room = ''308'', invigilators = [''ZBS'', ''MNJ'']\<rparr>])"
    unfolding Let_def l p by (simp del: parse_iter.simps add: numeral_2_eq_2)
  with b show ?thesis by (simp del: parse_iter.simps)
qed

subsection \<open>Texts without a date line\<close>

lemma loop_body_no_date:
  assumes "re_search date_time_rx (str_strip (lines ! i)) = None"
  shows "loop_body lines i None current_time duties = Inr (Suc i, None, current_time, duties)"
  using assms by (simp add: loop_body_def Let_def split: option.splits)

lemma parse_loop_no_date:
  assumes "\<forall>line \<in> set lines. re_search date_time_rx (str_strip line) = None"
  shows "parse_loop lines i None current_time duties = Inr duties"
proof (induction "length lines - i" arbitrary: i)
  case 0
  then show ?case by (subst parse_loop.simps) simp
next
  case (Suc n)
  then have i: "i < length lines" and n: "n = length lines - Suc i" by auto
  from i assms have "re_search date_time_rx (str_strip (lines ! i)) = None" by simp
  from loop_body_no_date [OF this] Suc.hyps(1) [OF n] i show ?case
    by (subst parse_loop.simps) simp
qed

text \<open>
  Claim C8. When no line of the text matches the \<open>Date: ... Time: ...\<close> pattern,
  \<open>parse_schedule\<close> returns the empty list: no date is ever in force, and the course
  lines are passed over.
\<close>

theorem no_header_no_duties:
  "\<forall>line \<in> set (split_lines [] txt). re_search date_time_rx (str_strip line) = None \<Longrightarrow>
     parse_schedule txt = Inr []"
  by (simp add: parse_schedule_def parse_loop_no_date)

text \<open>A course line and a line with a time but no date: no duty.\<close>

theorem no_header_no_duties_witness:
  "list_all (\<lambda>line. re_search date_time_rx (str_strip line) = None)
     (split_lines [] (''CSE 101 Intro to CS 308 (20)3509803-822 ZBS+MNJ'' @ [CHR 0x0A] @
                      ''Time: (09:00am - 12:00pm)'')) \<and>
   parse_schedule (''CSE 101 Intro to CS 308 (20)3509803-822 ZBS+MNJ'' @ [CHR 0x0A] @ ''Time: (09:00am - 12:00pm)'') = Inr []"
proof -
  have l: "split_lines [] (''CSE 101 Intro to CS 308 (20)3509803-822 ZBS+MNJ'' @ [CHR 0x0A] @ ''Time: (09:00am - 12:00pm)'') =
     [''CSE 101 Intro to CS 308 (20)3509803-822 ZBS+MNJ'', ''Time: (09:00am - 12:00pm)'']"
    by code_simp
  have a: "re_search date_time_rx (str_strip ''CSE 101 Intro to CS 308 (20)3509803-822 ZBS+MNJ'') = None"
    by code_simp
  have b: "re_search date_time_rx (str_strip ''Time: (09:00am - 12:00pm)'') = None"
    by code_simp
  have h: "\<forall>line \<in> set (split_lines [] (''CSE 101 Intro to CS 308 (20)3509803-822 ZBS+MNJ'' @ [CHR 0x0A] @ ''Time: (09:00am - 12:00pm)'')).
      re_search date_time_rx (str_strip line) = None"
    unfolding l using a b by simp
  from h no_header_no_duties [OF h] show ?thesis unfolding list_all_iff by blast
qed

subsection \<open>The end-to-end scenario\<close>

text \<open>
  Claim C2. The text of the scenario, a date line and a course line separated by a line
  feed, parses to exactly one duty: date \<open>01/02/2024\<close>, time \<open>(09:00am - 12:00pm)\<close>,
  course \<open>CSE 101\<close>, room \<open>308\<close>, invigilators \<open>ZBS\<close> and \<open>MNJ\<close> in this order
  (and the title \<open>Intro to CS\<close>).
\<close>

theorem end_to_end_scenario:
  "parse_schedule (''Date: 01/02/2024 Time: (09:00am - 12:00pm)'' @ [CHR 0x0A] @
                   ''CSE 101 Intro to CS 308 (20)3509803-822 ZBS+MNJ'') =
     Inr [\<lparr>date = ''01/02/2024'', time = ''(09:00am - 12:00pm)'', course = ''CSE 101'',
           title = ''Intro to CS'', room = ''308'', invigilators = [''ZBS'', ''MNJ'']\<rparr>]"
  by code_simp

subsection \<open>No error\<close>

text \<open>
  The text after the course code is the result of \<open>strip\<close>: when it is not empty it
  has a character that is not white space, and \<open>split\<close> gives at least one word.
\<close>

lemma course_title_of_ok: "\<exists>t. course_title_of (str_strip g) = Inr t"
proof (cases "re_search title_rx (str_strip g)")
  case (Some m)
  with title_group [OF Some] show ?thesis
    by (auto simp: course_title_of_def group_strip_def)
next
  case None
  show ?thesis
  proof (cases "str_strip g = []")
    case True
    with None show ?thesis by (simp add: course_title_of_def)
  next
    case False
    from str_split_strip [OF False] None False show ?thesis
      by (auto simp: course_title_of_def split: list.splits)
  qed
qed

lemma course_entry_ok:
  assumes "re_match course_rx line = Some course_match"
  shows "\<exists>j duties'. course_entry lines i course_match d t duties = Inr (j, duties')"
proof -
  from course_groups [OF assms] obtain g1 g2
    where g1: "group course_match 1 = Some g1" and g2: "group course_match 2 = Some g2"
    by auto
  from course_title_of_ok [of g2] obtain ct where "course_title_of (str_strip g2) = Inr ct" ..
  with g1 g2 show ?thesis
    by (simp add: course_entry_def group_strip_def Let_def split: prod.splits)
qed

lemma loop_body_ok: "\<exists>r. loop_body lines i current_date current_time duties = Inr r"
proof -
  let ?line = "str_strip (lines ! i)"
  show ?thesis
  proof (cases "is_page_header ?line")
    case True
    then show ?thesis by (simp add: loop_body_def)
  next
    case False
    note nh = this
    show ?thesis
    proof (cases "re_search date_time_rx ?line")
      case (Some m)
      from date_time_groups [OF Some] obtain g1 g2
        where "group m 1 = Some g1" "group m 2 = Some g2" by auto
      with nh Some show ?thesis by (simp add: loop_body_def group_strip_def)
    next
      case None
      note nd = this
      show ?thesis
      proof (cases "is_table_header ?line")
        case True
        with nh nd show ?thesis by (simp add: loop_body_def)
      next
        case False
        note nt = this
        show ?thesis
        proof (cases "re_match course_rx ?line")
          case None
          with nh nd nt show ?thesis by (simp add: loop_body_def)
        next
          case (Some cm)
          show ?thesis
          proof (cases "\<exists>d t. current_date = Some d \<and> current_time = Some t \<and> d \<noteq> [] \<and> t \<noteq> []")
            case False
            with nh nd nt Some show ?thesis
              by (auto simp: loop_body_def split: option.splits)
          next
            case True
            then obtain d t where dt: "current_date = Some d" "current_time = Some t" "d \<noteq> []" "t \<noteq> []"
              by blast
            from course_entry_ok [OF Some, of lines i d t duties] obtain j ds
              where "course_entry lines i cm d t duties = Inr (j, ds)" by blast
            with nh nd nt Some dt show ?thesis by (simp add: loop_body_def)
          qed
        qed
      qed
    qed
  qed
qed

lemma parse_loop_ok: "\<exists>out. parse_loop lines i current_date current_time duties = Inr out"
proof (induction "length lines - i" arbitrary: i current_date current_time duties rule: less_induct)
  case less
  show ?case
  proof (cases "i < length lines")
    case False
    then show ?thesis by (subst parse_loop.simps) simp
  next
    case True
    from loop_body_ok obtain i' d' t' ds'
      where b: "loop_body lines i current_date current_time duties = Inr (i', d', t', ds')"
      by (metis prod_cases4)
    from loop_body_cursor [OF b] True have "length lines - i' < length lines - i" by simp
    from less [OF this] obtain out where "parse_loop lines i' d' t' ds' = Inr out" by blast
    with b True show ?thesis by (subst parse_loop.simps) simp
  qed
qed

text \<open>
  Claim C9. \<open>parse_schedule\<close> raises no exception, whatever the text: it returns a list
  of duties. In particular the first word of the text after the course code is taken only
  when \<open>split\<close> has given a word, and \<open>strip\<close> is called only on groups that took
  part in the match.
\<close>

theorem parse_schedule_never_raises: "\<exists>duties. parse_schedule txt = Inr duties"
  unfolding parse_schedule_def by (rule parse_loop_ok)

text \<open>A garbled text with a course line, unbalanced brackets and a broken date line.\<close>

theorem parse_schedule_never_raises_witness:
  "\<exists>duties. parse_schedule (''Date: 01/02/2024 Time: ('' @ [CHR 0x0A] @ ''CSE 101 ((('' @
                              [CHR 0x0A] @ ''Date: Time: 308 ('') = Inr duties"
  by (rule parse_schedule_never_raises)

subsection \<open>The records of a schedule\<close>

definition duty_ok :: "duty \<Rightarrow> bool" where
  "duty_ok d \<longleftrightarrow>
     course d \<noteq> [] \<and> date d \<noteq> [] \<and> time d \<noteq> [] \<and> room d \<noteq> [] \<and>
     (\<forall>code \<in> set (invigilators d). str_upper code = code)"

lemma parse_room_assignments_ok:
  assumes "d \<in> set (parse_room_assignments c t e dv tv)" and "c \<noteq> []" and "dv \<noteq> []" and "tv \<noteq> []"
  shows "duty_ok d"
proof -
  from parse_room_assignments_record [OF assms(1)] obtain x
    where "course d = c" "date d = dv" "time d = tv" "length (room d) = 3"
      "invigilators d = extract_invigilator_codes x" by blast
  with assms(2-) show ?thesis
    unfolding duty_ok_def using extract_codes_upper [of _ x] by auto
qed

lemma course_entry_inv:
  assumes "re_match course_rx line = Some course_match"
    and "course_entry lines i course_match dv tv duties = Inr (j, duties')"
    and "dv \<noteq> []" and "tv \<noteq> []" and "\<forall>d \<in> set duties. duty_ok d"
  shows "\<forall>d \<in> set duties'. duty_ok d"
proof -
  from course_groups(1) [OF assms(1)] obtain g1
    where g1: "group course_match 1 = Some g1" and ne: "str_strip g1 \<noteq> []" by blast
  from assms(2) g1 obtain ct fe
    where "duties' = duties @ parse_room_assignments (str_strip g1) ct fe dv tv"
    by (auto simp: course_entry_def group_strip_def Let_def split: sum.splits prod.splits option.splits)
  with assms(3-) ne show ?thesis
    by (auto dest: parse_room_assignments_ok)
qed

lemma loop_body_inv:
  assumes "loop_body lines i current_date current_time duties = Inr (i', d', t', duties')"
    and "\<forall>d \<in> set duties. duty_ok d"
  shows "\<forall>d \<in> set duties'. duty_ok d"
proof -
  let ?line = "str_strip (lines ! i)"
  show ?thesis
  proof (cases "is_page_header ?line")
    case True
    with assms show ?thesis by (simp add: loop_body_def)
  next
    case False
    note nh = this
    show ?thesis
    proof (cases "re_search date_time_rx ?line")
      case (Some m)
      with assms nh show ?thesis
        by (auto simp: loop_body_def split: sum.splits)
    next
      case None
      note nd = this
      show ?thesis
      proof (cases "is_table_header ?line")
        case True
        with assms nh nd show ?thesis by (simp add: loop_body_def)
      next
        case False
        note nt = this
        show ?thesis
        proof (cases "re_match course_rx ?line")
          case None
          with assms nh nd nt show ?thesis by (simp add: loop_body_def)
        next
          case (Some cm)
          show ?thesis
          proof (cases "\<exists>d t. current_date = Some d \<and> current_time = Some t \<and> d \<noteq> [] \<and> t \<noteq> []")
            case False
            with assms nh nd nt Some show ?thesis
              by (auto simp: loop_body_def split: option.splits)
          next
            case True
            then obtain d t where dt: "current_date = Some d" "current_time = Some t" "d \<noteq> []" "t \<noteq> []"
              by blast
            with assms(1) nh nd nt Some obtain j
              where "course_entry lines i cm d t duties = Inr (j, duties')"
              by (auto simp: loop_body_def split: sum.splits)
            from course_entry_inv [OF Some this dt(3,4) assms(2)] show ?thesis .
          qed
        qed
      qed
    qed
  qed
qed

lemma parse_loop_inv:
  "parse_loop lines i current_date current_time duties = Inr out \<Longrightarrow>
     \<forall>d \<in> set duties. duty_ok d \<Longrightarrow> \<forall>d \<in> set out. duty_ok d"
proof (induction "length lines - i" arbitrary: i current_date current_time duties rule: less_induct)
  case less
  show ?case
  proof (cases "i < length lines")
    case False
    with less.prems show ?thesis by (subst (asm) parse_loop.simps) simp
  next
    case True
    from loop_body_ok obtain i' d' t' ds'
      where b: "loop_body lines i current_date current_time duties = Inr (i', d', t', ds')"
      by (metis prod_cases4)
    from loop_body_cursor [OF b] True have lt: "length lines - i' < length lines - i" by simp
    from less.prems(1) b True have "parse_loop lines i' d' t' ds' = Inr out"
      by (subst (asm) parse_loop.simps) simp
    from less.hyps [OF lt this loop_body_inv [OF b less.prems(2)]] show ?thesis .
  qed
qed

text \<open>
  Claim C4. Every duty returned by \<open>parse_schedule\<close> has a course, a date, a time and a
  room that are not empty, and each of its invigilator codes is in upper case.
\<close>

theorem emitted_records_wellformed:
  assumes "parse_schedule txt = Inr duties" and "d \<in> set duties"
  shows "course d \<noteq> [] \<and> date d \<noteq> [] \<and> time d \<noteq> [] \<and> room d \<noteq> [] \<and>
         (\<forall>code \<in> set (invigilators d). str_upper code = code)"
proof -
  from assms(1) have "\<forall>d \<in> set duties. duty_ok d"
    unfolding parse_schedule_def by (rule parse_loop_inv) simp
  with assms(2) show ?thesis by (simp add: duty_ok_def)
qed

text \<open>The duty of the end-to-end scenario.\<close>

theorem emitted_records_wellformed_witness:
  "parse_schedule (''Date: 01/02/2024 Time: (09:00am - 12:00pm)'' @ [CHR 0x0A] @
                   ''CSE 101 Intro to CS 308 (20)3509803-822 ZBS+MNJ'') =
     Inr [\<lparr>date = ''01/02/2024'', time = ''(09:00am - 12:00pm)'', course = ''CSE 101'',
           title = ''Intro to CS'', room = ''308'', invigilators = [''ZBS'', ''MNJ'']\<rparr>] \<and>
   ''CSE 101'' \<noteq> [] \<and> ''01/02/2024'' \<noteq> [] \<and> ''(09:00am - 12:00pm)'' \<noteq> [] \<and> ''308'' \<noteq> [] \<and>
   str_upper ''ZBS'' = ''ZBS'' \<and> str_upper ''MNJ'' = ''MNJ''"
proof -
  let ?d = "\<lparr>date = ''01/02/2024'', time = ''(09:00am - 12:00pm)'', course = ''CSE 101'',
           title = ''Intro to CS'', room = ''308'', invigilators = [''ZBS'', ''MNJ'']\<rparr>"
  have p: "parse_schedule (''Date: 01/02/2024 Time: (09:00am - 12:00pm)'' @ [CHR 0x0A] @
                   ''CSE 101 Intro to CS 308 (20)3509803-822 ZBS+MNJ'') = Inr [?d]"
    by code_simp
  have "?d \<in> set [?d]" by simp
  from emitted_records_wellformed [OF p this] p show ?thesis by simp
qed

subsection \<open>Rooms without codes\<close>

text \<open>
  The rooms the segmenter detects once strategy A has given no record: the three-digit
  numbers of strategy B, or else the room of strategy C. \<open>no_codes_recovered\<close> says
  that the Code Extractor finds no code in the text of any explicit pair, nor in the text
  the strategy in charge hands to it.
\<close>

definition detected_rooms :: "string \<Rightarrow> string list" where
  "detected_rooms entry_text =
     (let rooms = re_findall1 rooms_rx entry_text
      in if rooms \<noteq> [] then rooms
         else (case re_search single_room_rx entry_text of
                 None \<Rightarrow> []
               | Some single_room_match \<Rightarrow> [group_str single_room_match 1]))"

definition no_codes_recovered :: "string \<Rightarrow> bool" where
  "no_codes_recovered entry_text \<longleftrightarrow>
     list_all (\<lambda>(room_no, invig_text). extract_invigilator_codes invig_text = [])
       (re_findall2 room_pattern entry_text) \<and>
     (if re_findall1 rooms_rx entry_text \<noteq> []
      then extract_invigilator_codes (method2_text entry_text) = []
      else (case re_search single_room_rx entry_text of
              None \<Rightarrow> True
            | Some single_room_match \<Rightarrow>
                extract_invigilator_codes (match_end single_room_match) = []))"

lemma room_without_codes_segment:
  assumes "detected_rooms (normalize_entry entry_text) \<noteq> []"
    and "no_codes_recovered (normalize_entry entry_text)"
  shows "parse_room_assignments course_code course_title entry_text date_v time_v =
     map (\<lambda>room_no. \<lparr>date = date_v, time = time_v, course = course_code,
                      title = course_title, room = room_no, invigilators = []\<rparr>)
       (detected_rooms (normalize_entry entry_text))"
proof -
  let ?e = "normalize_entry entry_text"
  from assms(2) have "filter (\<lambda>(room_no, invig_text). extract_invigilator_codes invig_text \<noteq> [])
      (re_findall2 room_pattern ?e) = []"
    by (auto simp: no_codes_recovered_def list_all_iff filter_empty_conv)
  then have a: "strategy_a course_code course_title ?e date_v time_v = []"
    by (simp add: strategy_a_def method1_loop_eq)
  show ?thesis
  proof (cases "re_findall1 rooms_rx ?e = []")
    case False
    with assms(2) have x: "extract_invigilator_codes (method2_text ?e) = []"
      by (simp add: no_codes_recovered_def)
    from False x have "strategy_b course_code course_title ?e date_v time_v =
       map (\<lambda>room_no. \<lparr>date = date_v, time = time_v, course = course_code,
                      title = course_title, room = room_no, invigilators = []\<rparr>)
         (re_findall1 rooms_rx ?e)"
      by (simp add: strategy_b_def method2_loop_eq)
    with a False show ?thesis
      by (simp add: parse_room_assignments_cascade detected_rooms_def Let_def)
  next
    case True
    then have b: "strategy_b course_code course_title ?e date_v time_v = []"
      by (simp add: strategy_b_def method2_loop_eq)
    from True assms(1) obtain m where m: "re_search single_room_rx ?e = Some m"
      by (auto simp: detected_rooms_def split: option.splits)
    from single_room_group [OF m] obtain r where r: "group m 1 = Some r" by blast
    from True assms(2) m have x: "extract_invigilator_codes (match_end m) = []"
      by (simp add: no_codes_recovered_def)
    from a b True m r x show ?thesis
      by (simp add: parse_room_assignments_cascade detected_rooms_def strategy_c_def Let_def
            group_str_def)
  qed
qed

lemma loop_body_appends:
  assumes "loop_body lines i current_date current_time duties = Inr (i', d', t', duties')"
  shows "\<exists>room_duties. duties' = duties @ room_duties"
proof -
  let ?line = "str_strip (lines ! i)"
  show ?thesis
  proof (cases "is_page_header ?line")
    case True
    with assms show ?thesis by (simp add: loop_body_def)
  next
    case False
    note nh = this
    show ?thesis
    proof (cases "re_search date_time_rx ?line")
      case (Some m)
      with assms nh show ?thesis
        by (auto simp: loop_body_def split: sum.splits)
    next
      case None
      note nd = this
      show ?thesis
      proof (cases "is_table_header ?line")
        case True
        with assms nh nd show ?thesis by (simp add: loop_body_def)
      next
        case False
        with assms nh nd show ?thesis
          by (auto simp: loop_body_def course_entry_def Let_def
                split: option.splits sum.splits if_splits prod.splits)
      qed
    qed
  qed
qed

lemma parse_loop_keeps:
  "parse_loop lines i current_date current_time duties = Inr out \<Longrightarrow> \<exists>rest. out = duties @ rest"
proof (induction "length lines - i" arbitrary: i current_date current_time duties rule: less_induct)
  case less
  show ?case
  proof (cases "i < length lines")
    case False
    with less.prems show ?thesis by (subst (asm) parse_loop.simps) simp
  next
    case True
    from loop_body_ok obtain i' d' t' ds'
      where b: "loop_body lines i current_date current_time duties = Inr (i', d', t', ds')"
      by (metis prod_cases4)
    from loop_body_cursor [OF b] True have lt: "length lines - i' < length lines - i" by simp
    from less.prems(1) b True have "parse_loop lines i' d' t' ds' = Inr out"
      by (subst (asm) parse_loop.simps) simp
    from less.hyps [OF lt this] obtain rest where "out = ds' @ rest" ..
    with loop_body_appends [OF b] show ?thesis by auto
  qed
qed

text \<open>
  The states of the scan of a list of lines: the cursor, the date and time in force and
  the duties so far, from the start of \<open>parse_schedule\<close> on, one pass through the body
  of the outer loop after the other.
\<close>

inductive scan_reaches ::
  "string list \<Rightarrow> nat \<Rightarrow> string option \<Rightarrow> string option \<Rightarrow> duty list \<Rightarrow> bool"
  for lines :: "string list" where
  start: "scan_reaches lines 0 None None []"
| step: "scan_reaches lines i current_date current_time duties \<Longrightarrow> i < length lines \<Longrightarrow>
         loop_body lines i current_date current_time duties =
           Inr (i', current_date', current_time', duties') \<Longrightarrow>
         scan_reaches lines i' current_date' current_time' duties'"

lemma scan_reaches_result:
  "scan_reaches lines i current_date current_time duties \<Longrightarrow>
     parse_loop lines 0 None None [] = parse_loop lines i current_date current_time duties"
proof (induction rule: scan_reaches.induct)
  case start
  show ?case by simp
next
  case (step i current_date current_time duties i' current_date' current_time' duties')
  from step.hyps(2,3)
  have "parse_loop lines i current_date current_time duties =
        parse_loop lines i' current_date' current_time' duties'"
    by (subst parse_loop.simps) simp
  with step.IH show ?case by simp
qed

text \<open>
  The pass through the body at a course line, with a date and a time in force: the course
  code and the text after it are the two groups of the course pattern, stripped; the
  entry is what the inner loop collects from the next line on; the duties of the segmenter
  for this entry are appended.
\<close>

lemma loop_body_course_line:
  assumes "\<not> is_page_header (str_strip (lines ! i))"
    and "re_search date_time_rx (str_strip (lines ! i)) = None"
    and "\<not> is_table_header (str_strip (lines ! i))"
    and "re_match course_rx (str_strip (lines ! i)) = Some course_match"
    and "d \<noteq> []" and "t \<noteq> []"
    and "group course_match 1 = Some g1" and "group course_match 2 = Some g2"
    and "course_title_of (str_strip g2) = Inr course_title"
    and "collect_entry lines (i + 1) (str_strip g2) = (j, full_entry)"
  shows "loop_body lines i (Some d) (Some t) duties =
           Inr (j, Some d, Some t,
                duties @ parse_room_assignments (str_strip g1) course_title full_entry d t)"
  using assms
  by (simp add: loop_body_def course_entry_def group_strip_def Let_def)

text \<open>
  Claim C3. A course block in which a room is detected and from which no invigilator
  code can be recovered yields one duty for each detected room, with an empty list of
  invigilators, and the list of these duties is not empty. Such a block is not dropped
  from the result of \<open>parse_schedule\<close>: whenever the scan of a text stands at a course
  line with a date and a time in force, and the block assembled there (course code and
  title from the line, entry collected by the inner loop) is such a block, the result of
  \<open>parse_schedule\<close> on the text is the duties found before, then the duties of the
  block, one for each detected room and without invigilators, then the duties found
  after.
\<close>

theorem room_without_codes:
  assumes "detected_rooms (normalize_entry full_entry) \<noteq> []"
    and "no_codes_recovered (normalize_entry full_entry)"
  shows "parse_room_assignments course_code course_title full_entry d t =
           map (\<lambda>room_no. \<lparr>date = d, time = t, course = course_code,
                            title = course_title, room = room_no, invigilators = []\<rparr>)
             (detected_rooms (normalize_entry full_entry)) \<and>
         parse_room_assignments course_code course_title full_entry d t \<noteq> [] \<and>
         (\<forall>txt i duties course_match g1 g2 j.
            (let lines = split_lines [] txt; line = str_strip (lines ! i)
             in scan_reaches lines i (Some d) (Some t) duties \<and> i < length lines \<and>
                d \<noteq> [] \<and> t \<noteq> [] \<and>
                \<not> is_page_header line \<and> re_search date_time_rx line = None \<and>
                \<not> is_table_header line \<and>
                re_match course_rx line = Some course_match \<and>
                group course_match 1 = Some g1 \<and> str_strip g1 = course_code \<and>
                group course_match 2 = Some g2 \<and>
                course_title_of (str_strip g2) = Inr course_title \<and>
                collect_entry lines (i + 1) (str_strip g2) = (j, full_entry)) \<longrightarrow>
            (\<exists>rest. parse_schedule txt =
               Inr (duties @
                    map (\<lambda>room_no. \<lparr>date = d, time = t, course = course_code,
                                     title = course_title, room = room_no, invigilators = []\<rparr>)
                      (detected_rooms (normalize_entry full_entry)) @ rest)))"
proof -
  let ?recs = "map (\<lambda>room_no. \<lparr>date = d, time = t, course = course_code,
                            title = course_title, room = room_no, invigilators = []\<rparr>)
             (detected_rooms (normalize_entry full_entry))"
  have 1: "parse_room_assignments course_code course_title full_entry d t = ?recs"
    using assms by (rule room_without_codes_segment)
  from 1 assms(1)
  have 2: "parse_room_assignments course_code course_title full_entry d t \<noteq> []"
    by simp
  have 3: "\<exists>rest. parse_schedule schedule_text = Inr (duties @ ?recs @ rest)"
    if r: "scan_reaches (split_lines [] schedule_text) i (Some d) (Some t) duties"
      and i: "i < length (split_lines [] schedule_text)"
      and dt: "d \<noteq> []" "t \<noteq> []"
      and l: "\<not> is_page_header (str_strip (split_lines [] schedule_text ! i))"
        "re_search date_time_rx (str_strip (split_lines [] schedule_text ! i)) = None"
        "\<not> is_table_header (str_strip (split_lines [] schedule_text ! i))"
      and m: "re_match course_rx (str_strip (split_lines [] schedule_text ! i)) = Some course_match"
      and g: "group course_match 1 = Some g1" "str_strip g1 = course_code"
        "group course_match 2 = Some g2"
      and ti: "course_title_of (str_strip g2) = Inr course_title"
      and c: "collect_entry (split_lines [] schedule_text) (i + 1) (str_strip g2) = (j, full_entry)"
    for schedule_text i duties course_match g1 g2 j
  proof -
    let ?lines = "split_lines [] schedule_text"
    from loop_body_course_line [OF l m dt g(1,3) ti c, of duties] g(2) 1
    have b: "loop_body ?lines i (Some d) (Some t) duties = Inr (j, Some d, Some t, duties @ ?recs)"
      by simp
    from scan_reaches_result [OF r]
    have "parse_schedule schedule_text = parse_loop ?lines i (Some d) (Some t) duties"
      by (simp add: parse_schedule_def)
    also from i b have "\<dots> = parse_loop ?lines j (Some d) (Some t) (duties @ ?recs)"
      by (subst parse_loop.simps) simp
    finally have p: "parse_schedule schedule_text = parse_loop ?lines j (Some d) (Some t) (duties @ ?recs)" .
    from parse_loop_ok obtain out
      where out: "parse_loop ?lines j (Some d) (Some t) (duties @ ?recs) = Inr out" by blast
    from parse_loop_keeps [OF out] obtain rest where "out = (duties @ ?recs) @ rest" ..
    with p out have "parse_schedule schedule_text = Inr (duties @ ?recs @ rest)" by simp
    then show ?thesis ..
  qed
  from 1 2 3 show ?thesis unfolding Let_def by blast
qed

text \<open>
  A course whose room stands on the line after the course line: the inner loop collects
  the entry \<open>Intro 308\<close>, which has the room 308 (strategy B) and no code, and the
  schedule parses to a duty for room 308 without invigilators. The entry \<open>1308(20)\<close>
  has no three-digit number of its own; strategy C finds the room 308 in it, and no code
  follows.
\<close>

theorem room_without_codes_witness:
  "detected_rooms (normalize_entry ''Intro 308'') = [''308''] \<and>
   no_codes_recovered (normalize_entry ''Intro 308'') \<and>
   collect_entry [''Date: 01/02/2024 Time: (09:00am - 12:00pm)'', ''CSE 101 Intro'', ''308'']
     2 ''Intro'' = (3, ''Intro 308'') \<and>
   parse_room_assignments ''CSE 101'' ''Intro'' ''Intro 308'' ''01/02/2024'' ''(09:00am - 12:00pm)'' =
     [\<lparr>date = ''01/02/2024'', time = ''(09:00am - 12:00pm)'', course = ''CSE 101'',
       title = ''Intro'', room = ''308'', invigilators = []\<rparr>] \<and>
   (\<exists>rest. parse_schedule (''Date: 01/02/2024 Time: (09:00am - 12:00pm)'' @ [CHR 0x0A] @
                            ''CSE 101 Intro'' @ [CHR 0x0A] @ ''308'') =
      Inr (\<lparr>date = ''01/02/2024'', time = ''(09:00am - 12:00pm)'', course = ''CSE 101'',
            title = ''Intro'', room = ''308'', invigilators = []\<rparr> # rest)) \<and>
   detected_rooms (normalize_entry ''1308(20)'') = [''308''] \<and>
   no_codes_recovered (normalize_entry ''1308(20)'') \<and>
   parse_room_assignments ''CSE 101'' ''Intro'' ''1308(20)'' ''01/02/2024'' ''(09:00am - 12:00pm)'' =
     [\<lparr>date = ''01/02/2024'', time = ''(09:00am - 12:00pm)'', course = ''CSE 101'',
       title = ''Intro'', room = ''308'', invigilators = []\<rparr>]"
proof -
  let ?txt = "''Date: 01/02/2024 Time: (09:00am - 12:00pm)'' @ [CHR 0x0A] @
              ''CSE 101 Intro'' @ [CHR 0x0A] @ ''308''"
  let ?lines = "[''Date: 01/02/2024 Time: (09:00am - 12:00pm)'', ''CSE 101 Intro'', ''308'']"
  let ?d = "''01/02/2024''" and ?t = "''(09:00am - 12:00pm)''"
  have b1: "detected_rooms (normalize_entry ''Intro 308'') = [''308'']" by code_simp
  then have b0: "detected_rooms (normalize_entry ''Intro 308'') \<noteq> []" by simp
  have b2: "no_codes_recovered (normalize_entry ''Intro 308'')" by code_simp
  have sl: "split_lines [] ?txt = ?lines" by code_simp
  have l0: "loop_body ?lines 0 None None [] = Inr (1, Some ?d, Some ?t, [])" by code_simp
  have "scan_reaches ?lines 0 None None []" by (rule scan_reaches.start)
  from scan_reaches.step [OF this _ l0] have r: "scan_reaches ?lines 1 (Some ?d) (Some ?t) []"
    by simp
  have s1: "str_strip (?lines ! 1) = ''CSE 101 Intro''" by code_simp
  have h1: "\<not> is_page_header ''CSE 101 Intro''" by code_simp
  have h2: "re_search date_time_rx ''CSE 101 Intro'' = None" by code_simp
  have h3: "\<not> is_table_header ''CSE 101 Intro''" by code_simp
  have "(case re_match course_rx ''CSE 101 Intro'' of None \<Rightarrow> False
         | Some m \<Rightarrow> group m 1 = Some ''CSE 101'' \<and> group m 2 = Some ''Intro'')"
    by code_simp
  then obtain m where m: "re_match course_rx ''CSE 101 Intro'' = Some m"
    "group m 1 = Some ''CSE 101''" "group m 2 = Some ''Intro''"
    by (auto split: option.splits)
  have st: "str_strip ''CSE 101'' = ''CSE 101''" "str_strip ''Intro'' = ''Intro''" by code_simp+
  have ti: "course_title_of ''Intro'' = Inr ''Intro''" by code_simp
  have c: "collect_entry ?lines 2 ''Intro'' = (3, ''Intro 308'')" by code_simp
  note w = room_without_codes [OF b0 b2, of "''CSE 101''" "''Intro''" ?d ?t]
  from w have rb: "parse_room_assignments ''CSE 101'' ''Intro'' ''Intro 308'' ?d ?t =
     [\<lparr>date = ?d, time = ?t, course = ''CSE 101'',
       title = ''Intro'', room = ''308'', invigilators = []\<rparr>]"
    unfolding b1 by simp
  from w have "\<forall>txt i duties course_match g1 g2 j.
            (let lines = split_lines [] txt; line = str_strip (lines ! i)
             in scan_reaches lines i (Some ?d) (Some ?t) duties \<and> i < length lines \<and>
                ?d \<noteq> [] \<and> ?t \<noteq> [] \<and>
                \<not> is_page_header line \<and> re_search date_time_rx line = None \<and>
                \<not> is_table_header line \<and>
                re_match course_rx line = Some course_match \<and>
                group course_match 1 = Some g1 \<and> str_strip g1 = ''CSE 101'' \<and>
                group course_match 2 = Some g2 \<and>
                course_title_of (str_strip g2) = Inr ''Intro'' \<and>
                collect_entry lines (i + 1) (str_strip g2) = (j, ''Intro 308'')) \<longrightarrow>
            (\<exists>rest. parse_schedule txt =
               Inr (duties @
                    map (\<lambda>room_no. \<lparr>date = ?d, time = ?t, course = ''CSE 101'',
                                     title = ''Intro'', room = room_no, invigilators = []\<rparr>)
                      (detected_rooms (normalize_entry ''Intro 308'')) @ rest))"
    by blast
  from this [rule_format, of ?txt 1 "[]" m "''CSE 101''" "''Intro''" 3]
    r s1 h1 h2 h3 m st ti c
  have e:  "\<exists>rest. parse_schedule ?txt =
      Inr (\<lparr>date = ?d, time = ?t, course = ''CSE 101'',
            title = ''Intro'', room = ''308'', invigilators = []\<rparr> # rest)"
    unfolding Let_def sl b1 by (simp add: numeral_2_eq_2)
  have c1: "detected_rooms (normalize_entry ''1308(20)'') = [''308'']" by code_simp
  then have c0: "detected_rooms (normalize_entry ''1308(20)'') \<noteq> []" by simp
  have c2: "no_codes_recovered (normalize_entry ''1308(20)'')" by code_simp
  from room_without_codes [OF c0 c2, of "''CSE 101''" "''Intro''" ?d ?t]
  have rc: "parse_room_assignments ''CSE 101'' ''Intro'' ''1308(20)'' ?d ?t =
     [\<lparr>date = ?d, time = ?t, course = ''CSE 101'',
       title = ''Intro'', room = ''308'', invigilators = []\<rparr>]"
    unfolding c1 by simp
  from b1 b2 c rb e c1 c2 rc show ?thesis by blast
qed

section \<open>The query\<close>

lemma scan_invigilators_eq:
  "scan_invigilators d invigs code matching_duties =
     (if \<exists>invig \<in> set invigs. str_upper invig = code then matching_duties @ [d]
      else matching_duties)"
  by (induction invigs) auto

lemma find_loop_eq:
  "find_loop duties code matching_duties =
     matching_duties @
     filter (\<lambda>d. \<exists>invig \<in> set (invigilators d). str_upper invig = code) duties"
  by (induction duties arbitrary: matching_duties) (auto simp: scan_invigilators_eq)

text \<open>
  Claim C7. For every list of duties and every code, \<open>find_invigilator_duties\<close> returns
  exactly the duties that have an invigilator equal to the code once both are in upper
  case, in the order of the list, each of them once, however often the code occurs among
  its invigilators.
\<close>

theorem find_invigilator_duties_filter:
  "find_invigilator_duties duties code =
     filter (\<lambda>d. \<exists>invig \<in> set (invigilators d). str_upper invig = str_upper code) duties"
  by (simp add: find_invigilator_duties_def find_loop_eq)

text \<open>
  The query \<open>zbs\<close> finds the duty of \<open>ZBS\<close>, once, though the code is listed twice
  there, and not the duty of \<open>AB\<close>.
\<close>

theorem find_invigilator_duties_filter_witness:
  "find_invigilator_duties
     [\<lparr>date = ''01/02/2024'', time = ''(09:00am - 12:00pm)'', course = ''CSE 101'',
       title = ''Intro to CS'', room = ''308'', invigilators = [''MNJ'', ''ZBS'', ''ZBS'']\<rparr>,
      \<lparr>date = ''01/02/2024'', time = ''(09:00am - 12:00pm)'', course = ''CSE 102'',
       title = ''Data'', room = ''309'', invigilators = [''AB'']\<rparr>] ''zbs'' =
     [\<lparr>date = ''01/02/2024'', time = ''(09:00am - 12:00pm)'', course = ''CSE 101'',
       title = ''Intro to CS'', room = ''308'', invigilators = [''MNJ'', ''ZBS'', ''ZBS'']\<rparr>]"
proof -
  have u: "str_upper ''zbs'' = ''ZBS''" "str_upper ''ZBS'' = ''ZBS''"
    "str_upper ''MNJ'' = ''MNJ''" "str_upper ''AB'' = ''AB''"
    by code_simp+
  show ?thesis
    unfolding find_invigilator_duties_filter by (simp add: u)
qed

end
